theory Spec2Isabelle
  imports Complex_Main
begin

section \<open>History store (useHistory)\<close>

text \<open>
  \<^verbatim>\<open>useHistory\<close> of \<^verbatim>\<open>element-utils.js\<close> keeps an array of snapshots and an index
  into it. A JavaScript array may have holes and a read out of range gives
  \<^verbatim>\<open>undefined\<close>; a slot is therefore an \<open>option\<close>, \<open>None\<close> standing for
  \<^verbatim>\<open>undefined\<close>. One call of an operation is one step on the pair of the two React
  states.
\<close>

record 'a history_state =
  history :: "'a option list"
  index :: nat

text \<open>The argument of \<^verbatim>\<open>setState\<close>: a new state, or a function of the current one.\<close>

datatype 'a action = Value 'a | Updater "'a option \<Rightarrow> 'a"

definition useHistory :: "'a \<Rightarrow> 'a history_state" where
  "useHistory initialState = \<lparr>history = [Some initialState], index = 0\<rparr>"

text \<open>\<^verbatim>\<open>history[index]\<close>, the first component of what the hook returns.\<close>

definition current :: "'a history_state \<Rightarrow> 'a option" where
  "current h = (if index h < length (history h) then history h ! index h else None)"

text \<open>\<^verbatim>\<open>arr[i] = v\<close>: in range it replaces the slot, out of range the array grows and the
  slots in between are holes.\<close>

definition array_set :: "'a option list \<Rightarrow> nat \<Rightarrow> 'a option \<Rightarrow> 'a option list" where
  "array_set xs i v =
     (if i < length xs then xs[i := v]
      else xs @ replicate (i - length xs) None @ [v])"

definition setState :: "'a action \<Rightarrow> bool \<Rightarrow> 'a history_state \<Rightarrow> 'a history_state" where
  "setState act overwrite h =
     (let newState = (case act of Updater f \<Rightarrow> f (current h) | Value v \<Rightarrow> v)
      in if overwrite
         then h\<lparr>history := array_set (history h) (index h) (Some newState)\<rparr>
         else h\<lparr>history := take (index h + 1) (history h) @ [Some newState],
                index := index h + 1\<rparr>)"

definition undo :: "'a history_state \<Rightarrow> 'a history_state" where
  "undo h = (if index h > 0 then h\<lparr>index := index h - 1\<rparr> else h)"

definition redo :: "'a history_state \<Rightarrow> 'a history_state" where
  "redo h = (if int (index h) < int (length (history h)) - 1
             then h\<lparr>index := index h + 1\<rparr> else h)"

text \<open>The states the hook can be in: the initial one and all that the three operations
  lead to.\<close>

inductive reachable :: "'a \<Rightarrow> 'a history_state \<Rightarrow> bool" for initialState :: 'a where
  r_init: "reachable initialState (useHistory initialState)"
| r_set: "reachable initialState h \<Longrightarrow> reachable initialState (setState act ov h)"
| r_undo: "reachable initialState h \<Longrightarrow> reachable initialState (undo h)"
| r_redo: "reachable initialState h \<Longrightarrow> reachable initialState (redo h)"

text \<open>\<open>n\<close> consecutive overwriting commits.\<close>

fun overwrites :: "'a action list \<Rightarrow> 'a history_state \<Rightarrow> 'a history_state" where
  "overwrites [] h = h"
| "overwrites (a # as) h = overwrites as (setState a True h)"

section \<open>Elements, hit testing and coordinate adjustment (element-utils.js)\<close>

text \<open>
  JavaScript numbers are modelled as reals. An element is the object
  \<^verbatim>\<open>{id, type, x1, y1, x2, y2, points, size, text}\<close>; the type tag is a string, as in
  the source, so that a tag no branch knows is an input like any other. A pencil element
  has no \<^verbatim>\<open>x1 .. y2\<close> in the source; the record carries them as 0, and no function below
  reads them on its pencil branch. Only a pencil element has \<^verbatim>\<open>points\<close>: the field is
  \<open>None\<close> where the source object has none; \<^verbatim>\<open>size\<close> and \<^verbatim>\<open>text\<close> are 0 and empty
  until the source sets them. The \<^verbatim>\<open>roughElement\<close> of a line or rectangle is a drawing
  handle and is left out.
\<close>

record coords =
  x1 :: real
  y1 :: real
  x2 :: real
  y2 :: real

record pencil_point =
  px :: real
  py :: real
  isErased :: bool

record element = coords +
  eid :: nat
  etype :: string
  epoints :: "pencil_point list option"
  esize :: real
  etext :: string

datatype error =
  TypeNotRecognised string   \<comment> \<open>\<^verbatim>\<open>throw new Error(`Type not recognised: ${type}`)\<close>\<close>
| TypeError                  \<comment> \<open>reading a property of \<^verbatim>\<open>undefined\<close> or \<^verbatim>\<open>null\<close>\<close>

definition createElement ::
  "nat \<Rightarrow> real \<Rightarrow> real \<Rightarrow> real \<Rightarrow> real \<Rightarrow> string \<Rightarrow> real \<Rightarrow> error + element" where
  "createElement i a b c d type pencilSize =
     (if type = ''line'' \<or> type = ''rectangle'' then
        Inr \<lparr>x1 = a, y1 = b, x2 = c, y2 = d, eid = i, etype = type,
             epoints = None, esize = 0, etext = []\<rparr>
      else if type = ''pencil'' then
        Inr \<lparr>x1 = 0, y1 = 0, x2 = 0, y2 = 0, eid = i, etype = type,
             epoints = Some [\<lparr>px = a, py = b, isErased = False\<rparr>], esize = pencilSize, etext = []\<rparr>
      else if type = ''text'' then
        Inr \<lparr>x1 = a, y1 = b, x2 = c, y2 = d, eid = i, etype = type,
             epoints = None, esize = 0, etext = []\<rparr>
      else if type = ''capture'' then
        Inr \<lparr>x1 = a, y1 = b, x2 = c, y2 = d, eid = i, etype = type,
             epoints = None, esize = 0, etext = []\<rparr>
      else Inl (TypeNotRecognised type))"

definition nearPoint :: "real \<Rightarrow> real \<Rightarrow> real \<Rightarrow> real \<Rightarrow> string \<Rightarrow> string option" where
  "nearPoint x y a b name = (if \<bar>x - a\<bar> < 5 \<and> \<bar>y - b\<bar> < 5 then Some name else None)"

definition distance :: "real \<times> real \<Rightarrow> real \<times> real \<Rightarrow> real" where
  "distance a b = sqrt ((fst a - fst b)\<^sup>2 + (snd a - snd b)\<^sup>2)"

definition onLine ::
  "real \<Rightarrow> real \<Rightarrow> real \<Rightarrow> real \<Rightarrow> real \<Rightarrow> real \<Rightarrow> real \<Rightarrow> string option" where
  "onLine a1 b1 a2 b2 x y maxDistance =
     (let a = (a1, b1); b = (a2, b2); c = (x, y);
          offset = distance a b - (distance a c + distance b c)
      in if \<bar>offset\<bar> < maxDistance then Some ''inside'' else None)"

text \<open>\<^verbatim>\<open>p || q\<close> on results that are a non-empty string or \<^verbatim>\<open>null\<close>.\<close>

definition orElse :: "string option \<Rightarrow> string option \<Rightarrow> string option" where
  "orElse p q = (case p of Some v \<Rightarrow> Some v | None \<Rightarrow> q)"

definition positionWithinElement :: "real \<Rightarrow> real \<Rightarrow> element \<Rightarrow> error + string option" where
  "positionWithinElement x y element =
     (if etype element = ''line'' then
        (let on = onLine (x1 element) (y1 element) (x2 element) (y2 element) x y 1;
             start = nearPoint x y (x1 element) (y1 element) ''start'';
             end' = nearPoint x y (x2 element) (y2 element) ''end''
         in Inr (orElse start (orElse end' on)))
      else if etype element = ''rectangle'' then
        (let topLeft = nearPoint x y (x1 element) (y1 element) ''tl'';
             topRight = nearPoint x y (x2 element) (y1 element) ''tr'';
             bottomLeft = nearPoint x y (x1 element) (y2 element) ''bl'';
             bottomRight = nearPoint x y (x2 element) (y2 element) ''br'';
             inside = (if x \<ge> x1 element \<and> x \<le> x2 element \<and> y \<ge> y1 element \<and> y \<le> y2 element
                       then Some ''inside'' else None)
         in Inr (orElse topLeft (orElse topRight (orElse bottomLeft (orElse bottomRight inside)))))
      else if etype element = ''pencil'' then
        (case epoints element of
           None \<Rightarrow> Inl TypeError
         | Some ps \<Rightarrow>
             (let betweenAnyPoint = list_ex (\<lambda>k. k + 1 < length ps \<and>
                    onLine (px (ps ! k)) (py (ps ! k)) (px (ps ! (k + 1))) (py (ps ! (k + 1))) x y 5
                      \<noteq> None) [0 ..< length ps]
              in Inr (if betweenAnyPoint then Some ''inside'' else None)))
      else if etype element = ''text'' then
        Inr (if x \<ge> x1 element \<and> x \<le> x2 element \<and> y \<ge> y1 element \<and> y \<le> y2 element
             then Some ''inside'' else None)
      else Inl (TypeNotRecognised (etype element)))"

text \<open>
  The array of elements. A JavaScript array may be sparse: a slot is an element, the
  value \<^verbatim>\<open>undefined\<close>, or a hole (no value at all, as \<^verbatim>\<open>arr[i] = v\<close> past the end leaves
  behind). The array methods tell the two apart: \<^verbatim>\<open>map\<close> and \<^verbatim>\<open>filter\<close> skip a hole
  and call their function on \<^verbatim>\<open>undefined\<close>; \<^verbatim>\<open>find\<close> and the spread \<^verbatim>\<open>[...arr]\<close> read a
  hole as \<^verbatim>\<open>undefined\<close>.
\<close>

datatype slot = Hole | Undef | Elem element

text \<open>\<^verbatim>\<open>[...arr]\<close>: a copy without holes.\<close>

definition spread :: "slot list \<Rightarrow> slot list" where
  "spread arr = map (\<lambda>s. case s of Hole \<Rightarrow> Undef | Undef \<Rightarrow> Undef | Elem e \<Rightarrow> Elem e) arr"

text \<open>\<^verbatim>\<open>getElementAtPosition\<close>: the \<^verbatim>\<open>map\<close> tests every element before \<^verbatim>\<open>find\<close> looks at
  the first result, so an element of an unknown type makes the call throw wherever it is
  in the array; on \<^verbatim>\<open>undefined\<close> the destructuring in \<^verbatim>\<open>positionWithinElement\<close> throws.
  A hole stays a hole in the mapped array, and \<^verbatim>\<open>find\<close>, reaching it, throws on
  \<^verbatim>\<open>element.position\<close>. The result is the element found together with its
  \<^verbatim>\<open>position\<close>.\<close>

fun positions ::
  "real \<Rightarrow> real \<Rightarrow> slot list \<Rightarrow> error + (element \<times> string option) option list" where
  "positions x y [] = Inr []"
| "positions x y (s # ss) =
     (case s of
        Hole \<Rightarrow>
          (case positions x y ss of Inl err \<Rightarrow> Inl err | Inr ps \<Rightarrow> Inr (None # ps))
      | Undef \<Rightarrow> Inl TypeError
      | Elem e \<Rightarrow>
          (case positionWithinElement x y e of
             Inl err \<Rightarrow> Inl err
           | Inr p \<Rightarrow>
               (case positions x y ss of
                  Inl err \<Rightarrow> Inl err
                | Inr ps \<Rightarrow> Inr (Some (e, p) # ps))))"

fun findPositioned ::
  "(element \<times> string option) option list \<Rightarrow> error + (element \<times> string option) option" where
  "findPositioned [] = Inr None"
| "findPositioned (None # ps) = Inl TypeError"
| "findPositioned (Some ep # ps) =
     (if snd ep \<noteq> None then Inr (Some ep) else findPositioned ps)"

definition getElementAtPosition ::
  "real \<Rightarrow> real \<Rightarrow> slot list \<Rightarrow> error + (element \<times> string option) option" where
  "getElementAtPosition x y elements =
     (case positions x y elements of
        Inl err \<Rightarrow> Inl err
      | Inr ps \<Rightarrow> findPositioned ps)"

definition adjustElementCoordinates :: "element \<Rightarrow> coords" where
  "adjustElementCoordinates element =
     (if etype element = ''rectangle'' then
        (let minX = min (x1 element) (x2 element);
             maxX = max (x1 element) (x2 element);
             minY = min (y1 element) (y2 element);
             maxY = max (y1 element) (y2 element)
         in \<lparr>x1 = minX, y1 = minY, x2 = maxX, y2 = maxY\<rparr>)
      else if x1 element < x2 element \<or> (x1 element = x2 element \<and> y1 element < y2 element) then
        \<lparr>x1 = x1 element, y1 = y1 element, x2 = x2 element, y2 = y2 element\<rparr>
      else
        \<lparr>x1 = x2 element, y1 = y2 element, x2 = x1 element, y2 = y1 element\<rparr>)"

text \<open>The element with new corner coordinates, as \<^verbatim>\<open>handleMouseUp\<close> rebuilds it from the
  result of \<^verbatim>\<open>adjustElementCoordinates\<close> (\<^verbatim>\<open>updateElement(id, x1, y1, x2, y2, type)\<close>).\<close>

definition withCoords :: "element \<Rightarrow> coords \<Rightarrow> element" where
  "withCoords e c = e\<lparr>x1 := x1 c, y1 := y1 c, x2 := x2 c, y2 := y2 c\<rparr>"

definition adjustmentRequired :: "string \<Rightarrow> bool" where
  "adjustmentRequired type = (type \<in> set [''line'', ''rectangle''])"

definition resizedCoordinates :: "real \<Rightarrow> real \<Rightarrow> string \<Rightarrow> coords \<Rightarrow> coords option" where
  "resizedCoordinates clientX clientY position coordinates =
     (if position = ''tl'' \<or> position = ''start'' then
        Some \<lparr>x1 = clientX, y1 = clientY, x2 = x2 coordinates, y2 = y2 coordinates\<rparr>
      else if position = ''tr'' then
        Some \<lparr>x1 = x1 coordinates, y1 = clientY, x2 = clientX, y2 = y2 coordinates\<rparr>
      else if position = ''bl'' then
        Some \<lparr>x1 = clientX, y1 = y1 coordinates, x2 = x2 coordinates, y2 = clientY\<rparr>
      else if position = ''br'' \<or> position = ''end'' then
        Some \<lparr>x1 = x1 coordinates, y1 = y1 coordinates, x2 = clientX, y2 = clientY\<rparr>
      else None)"

text \<open>\<^verbatim>\<open>onZoom\<close>: the new scale from the previous one.\<close>

definition onZoom :: "real \<Rightarrow> real \<Rightarrow> real" where
  "onZoom delta prevState = min (max (prevState + delta) (1 / 10)) 2"

fun zoomAll :: "real list \<Rightarrow> real \<Rightarrow> real" where
  "zoomAll [] s = s"
| "zoomAll (d # ds) s = zoomAll ds (onZoom d s)"

section \<open>Pointer handlers on the element collection (createMouseHandlers)\<close>

text \<open>
  The handlers read the array \<^verbatim>\<open>elements\<close> of the current render and hand a new array
  to \<^verbatim>\<open>setElements\<close>; each function below returns that new array, or the error thrown
  before \<^verbatim>\<open>setElements\<close> is reached. A write \<^verbatim>\<open>elementsCopy[id] = e\<close> replaces a slot
  when \<open>id\<close> is inside the array and otherwise makes the array \<open>id + 1\<close> long, the
  slots in between being holes. \<^verbatim>\<open>measureText\<close> belongs to the canvas and is a parameter.
\<close>

definition write_slot :: "slot list \<Rightarrow> nat \<Rightarrow> element \<Rightarrow> slot list" where
  "write_slot elementsCopy i e =
     (if i < length elementsCopy then elementsCopy[i := Elem e]
      else elementsCopy @ replicate (i - length elementsCopy) Hole @ [Elem e])"

definition updateElement ::
  "(string \<Rightarrow> real) \<Rightarrow> real \<Rightarrow> slot list \<Rightarrow>
   nat \<Rightarrow> real \<Rightarrow> real \<Rightarrow> real \<Rightarrow> real \<Rightarrow> string \<Rightarrow> string option \<Rightarrow> error + slot list" where
  "updateElement measureText pencilSize elements i a b c d type options =
     (let elementsCopy = spread elements in
      if type = ''line'' \<or> type = ''rectangle'' then
        (case createElement i a b c d type 3 of
           Inl err \<Rightarrow> Inl err
         | Inr e \<Rightarrow> Inr (write_slot elementsCopy i (e\<lparr>esize := pencilSize\<rparr>)))
      else if type = ''pencil'' then
        (if i < length elementsCopy then
           (case elementsCopy ! i of
              Elem el \<Rightarrow>
                (case epoints el of
                   None \<Rightarrow> Inl TypeError
                 | Some ps \<Rightarrow>
                     Inr (elementsCopy[i := Elem (el
                            \<lparr>epoints := Some (ps @ [\<lparr>px = c, py = d, isErased = False\<rparr>])\<rparr>)]))
            | Hole \<Rightarrow> Inl TypeError
            | Undef \<Rightarrow> Inl TypeError)
         else Inl TypeError)
      else if type = ''text'' then
        (case options of
           None \<Rightarrow> Inl TypeError
         | Some txt \<Rightarrow>
            (let textWidth = measureText txt; textHeight = 24 in
             case createElement i a b (a + textWidth) (b + textHeight) type 3 of
               Inl err \<Rightarrow> Inl err
             | Inr e \<Rightarrow> Inr (write_slot elementsCopy i (e\<lparr>etext := txt\<rparr>))))
      else Inl (TypeNotRecognised type))"

text \<open>\<^verbatim>\<open>handleMouseDown\<close> with the eraser tool, and the same lines of \<^verbatim>\<open>handleMouseMove\<close>
  while erasing: the element under the pointer is removed by
  \<^verbatim>\<open>prevState.filter(el => el.id !== elementToErase.id)\<close>, which skips holes and throws
  on \<^verbatim>\<open>undefined\<close>.\<close>

fun filterOut :: "nat \<Rightarrow> slot list \<Rightarrow> error + slot list" where
  "filterOut target [] = Inr []"
| "filterOut target (s # ss) =
     (case s of
        Hole \<Rightarrow> filterOut target ss
      | Undef \<Rightarrow> Inl TypeError
      | Elem el \<Rightarrow>
          (case filterOut target ss of
             Inl err \<Rightarrow> Inl err
           | Inr kept \<Rightarrow> Inr (if eid el \<noteq> target then Elem el # kept else kept)))"

definition eraseAt :: "real \<Rightarrow> real \<Rightarrow> slot list \<Rightarrow> error + slot list" where
  "eraseAt clientX clientY elements =
     (case getElementAtPosition clientX clientY elements of
        Inl err \<Rightarrow> Inl err
      | Inr None \<Rightarrow> Inr elements
      | Inr (Some elementToErase) \<Rightarrow> filterOut (eid (fst elementToErase)) elements)"

text \<open>\<^verbatim>\<open>handleMouseDown\<close> with a drawing tool (also the capture tool): the new element
  gets the length of the array as its id and is appended
  (\<^verbatim>\<open>[...prevState, element]\<close>).\<close>

definition createAt :: "string \<Rightarrow> real \<Rightarrow> real \<Rightarrow> real \<Rightarrow> slot list \<Rightarrow> error + slot list" where
  "createAt tool clientX clientY pencilSize elements =
     (let i = length elements in
      case createElement i clientX clientY clientX clientY tool pencilSize of
        Inl err \<Rightarrow> Inl err
      | Inr element \<Rightarrow> Inr (spread elements @ [Elem element]))"

text \<open>\<^verbatim>\<open>handleMouseMove\<close> while resizing. The selected element carries the
  \<^verbatim>\<open>position\<close> the hit test gave it; the result of \<^verbatim>\<open>resizedCoordinates\<close> is
  destructured at once, which throws on \<^verbatim>\<open>null\<close>.\<close>

definition resizeMove ::
  "(string \<Rightarrow> real) \<Rightarrow> real \<Rightarrow> slot list \<Rightarrow> element \<Rightarrow> string \<Rightarrow> real \<Rightarrow> real
   \<Rightarrow> error + slot list" where
  "resizeMove measureText pencilSize elements selectedElement position clientX clientY =
     (case resizedCoordinates clientX clientY position
             \<lparr>x1 = x1 selectedElement, y1 = y1 selectedElement,
              x2 = x2 selectedElement, y2 = y2 selectedElement\<rparr> of
        None \<Rightarrow> Inl TypeError
      | Some c \<Rightarrow> updateElement measureText pencilSize elements (eid selectedElement)
                    (x1 c) (y1 c) (x2 c) (y2 c) (etype selectedElement) None)"

text \<open>The invariant the update paths rely on: an element at position \<open>k\<close> has id
  \<open>k\<close>.\<close>

definition idIsIndex :: "slot list \<Rightarrow> bool" where
  "idIsIndex elements =
     list_all (\<lambda>ks. case snd ks of Elem e \<Rightarrow> eid e = fst ks | Hole \<Rightarrow> True | Undef \<Rightarrow> True)
       (enumerate 0 elements)"

text \<open>Two rectangles as the handlers leave them after drawing, ids 0 and 1.\<close>

definition rect_a :: element where
  "rect_a = \<lparr>x1 = 0, y1 = 0, x2 = 10, y2 = 10, eid = 0, etype = ''rectangle'',
             epoints = None, esize = 3, etext = []\<rparr>"

definition rect_b :: element where
  "rect_b = \<lparr>x1 = 100, y1 = 100, x2 = 110, y2 = 110, eid = 1, etype = ''rectangle'',
             epoints = None, esize = 3, etext = []\<rparr>"

section \<open>Region detection (element-utils.js)\<close>

text \<open>
  A region is \<^verbatim>\<open>{points, minX, maxX, minY, maxY}\<close>. Pixel coordinates are integers while
  the flood fill steps over the raster and become numbers (reals) once stored in a region.
\<close>

record region =
  points :: "(real \<times> real) list"
  minX :: real
  maxX :: real
  minY :: real
  maxY :: real

definition calculateRegionDistance :: "region \<Rightarrow> region \<Rightarrow> real" where
  "calculateRegionDistance region1 region2 =
     (let xOverlap = (\<not> (maxX region1 < minX region2 \<or> minX region1 > maxX region2));
          yOverlap = (\<not> (maxY region1 < minY region2 \<or> minY region1 > maxY region2))
      in if xOverlap \<and> yOverlap then 0
         else
          (let dx = (if \<not> xOverlap
                     then min \<bar>maxX region1 - minX region2\<bar> \<bar>minX region1 - maxX region2\<bar>
                     else 0);
               dy = (if \<not> yOverlap
                     then min \<bar>maxY region1 - minY region2\<bar> \<bar>minY region1 - maxY region2\<bar>
                     else 0)
           in sqrt (dx * dx + dy * dy)))"

definition mergeRegions :: "region \<Rightarrow> region \<Rightarrow> region" where
  "mergeRegions region1 region2 =
     \<lparr>points = points region1 @ points region2,
      minX = min (minX region1) (minX region2),
      maxX = max (maxX region1) (maxX region2),
      minY = min (minY region1) (minY region2),
      maxY = max (maxY region1) (maxY region2)\<rparr>"

text \<open>A bounding box proper: the lower bound of each axis is not above the upper one.
  Every region that \<^verbatim>\<open>floodFill\<close> or \<^verbatim>\<open>mergeRegions\<close> builds is one.\<close>

definition boxOK :: "region \<Rightarrow> bool" where
  "boxOK r = (minX r \<le> maxX r \<and> minY r \<le> maxY r)"

text \<open>The specification's words for the distance, on one axis: two intervals overlap when
  neither lies wholly before the other; the gap between them is 0 when they overlap and
  else the distance from the end of the earlier one to the start of the later one.\<close>

definition spec_overlap :: "real \<Rightarrow> real \<Rightarrow> real \<Rightarrow> real \<Rightarrow> bool" where
  "spec_overlap lo1 hi1 lo2 hi2 = (lo1 \<le> hi2 \<and> lo2 \<le> hi1)"

definition spec_gap :: "real \<Rightarrow> real \<Rightarrow> real \<Rightarrow> real \<Rightarrow> real" where
  "spec_gap lo1 hi1 lo2 hi2 =
     (if hi1 < lo2 then lo2 - hi1 else if hi2 < lo1 then lo1 - hi2 else 0)"

text \<open>
  The raster is the \<^verbatim>\<open>ImageData\<close> of the canvas: its width, its height and the bytes
  \<^verbatim>\<open>data\<close>, four per pixel. A read outside \<^verbatim>\<open>data\<close> gives \<^verbatim>\<open>undefined\<close> (\<open>None\<close>),
  and \<^verbatim>\<open>undefined > 0\<close> is false. The set \<^verbatim>\<open>visited\<close> of keys \<^verbatim>\<open>"x,y"\<close> is a set of
  pairs; \<^verbatim>\<open>floodFill\<close> adds to it, so the model returns it with the region.
\<close>

record imageData =
  width :: int
  height :: int
  data :: "nat list"

record pixel =
  pix_r :: "nat option"
  pix_g :: "nat option"
  pix_b :: "nat option"
  pix_a :: "nat option"

definition data_at :: "imageData \<Rightarrow> int \<Rightarrow> nat option" where
  "data_at imageData k =
     (if 0 \<le> k \<and> nat k < length (data imageData) then Some (data imageData ! nat k) else None)"

definition getPixel :: "imageData \<Rightarrow> int \<Rightarrow> int \<Rightarrow> pixel" where
  "getPixel imageData x y =
     (let k = (y * width imageData + x) * 4
      in \<lparr>pix_r = data_at imageData k, pix_g = data_at imageData (k + 1),
          pix_b = data_at imageData (k + 2), pix_a = data_at imageData (k + 3)\<rparr>)"

definition isPixelNonTransparent :: "pixel \<Rightarrow> bool" where
  "isPixelNonTransparent p = (case pix_a p of None \<Rightarrow> False | Some v \<Rightarrow> v > 0)"

definition isWithinBounds :: "int \<Rightarrow> int \<Rightarrow> int \<Rightarrow> int \<Rightarrow> bool" where
  "isWithinBounds x y w h = (x \<ge> 0 \<and> x < w \<and> y \<ge> 0 \<and> y < h)"

definition neighbors :: "int \<Rightarrow> int \<Rightarrow> (int \<times> int) list" where
  "neighbors x y =
     [(x + 1, y), (x - 1, y), (x, y + 1), (x, y - 1),
      (x + 1, y + 1), (x - 1, y - 1), (x + 1, y - 1), (x - 1, y + 1)]"

definition addPoint :: "region \<Rightarrow> int \<Rightarrow> int \<Rightarrow> region" where
  "addPoint region x y =
     region\<lparr>points := points region @ [(of_int x, of_int y)],
            minX := min (minX region) (of_int x),
            maxX := max (maxX region) (of_int x),
            minY := min (minY region) (of_int y),
            maxY := max (maxY region) (of_int y)\<rparr>"

definition pushNeighbors ::
  "imageData \<Rightarrow> (int \<times> int) set \<Rightarrow> int \<Rightarrow> int \<Rightarrow> (int \<times> int) list" where
  "pushNeighbors imageData visited x y =
     filter (\<lambda>n. isWithinBounds (fst n) (snd n) (width imageData) (height imageData)
                  \<and> n \<notin> visited) (neighbors x y)"

text \<open>Termination of the flood fill: every pixel of the raster is added to \<^verbatim>\<open>visited\<close>
  at most once, and only then are neighbours (at most eight, all inside the raster) put
  on the queue.\<close>

definition inBounds :: "imageData \<Rightarrow> (int \<times> int) set" where
  "inBounds imageData = {0 ..< width imageData} \<times> {0 ..< height imageData}"

definition weight :: "imageData \<Rightarrow> int \<times> int \<Rightarrow> nat" where
  "weight imageData p = (if p \<in> inBounds imageData then 1 else 10)"

definition floodMeasure :: "imageData \<times> (int \<times> int) list \<times> (int \<times> int) set \<times> region \<Rightarrow> nat" where
  "floodMeasure = (\<lambda>(imageData, queue, visited, region).
     9 * card (inBounds imageData - visited) + sum_list (map (weight imageData) queue))"

lemma finite_inBounds: "finite (inBounds imageData)"
  by (simp add: inBounds_def)

lemma pushNeighbors_weight:
  "sum_list (map (weight imageData) (pushNeighbors imageData visited x y)) \<le> 8"
proof -
  have "\<And>ns. sum_list (map (weight imageData)
          (filter (\<lambda>n. isWithinBounds (fst n) (snd n) (width imageData) (height imageData)
                  \<and> n \<notin> visited) ns)) \<le> length ns"
  proof -
    fix ns show "sum_list (map (weight imageData)
          (filter (\<lambda>n. isWithinBounds (fst n) (snd n) (width imageData) (height imageData)
                  \<and> n \<notin> visited) ns)) \<le> length ns"
      by (induction ns) (auto simp: weight_def inBounds_def isWithinBounds_def)
  qed
  from this[of "neighbors x y"] show ?thesis
    by (simp add: pushNeighbors_def neighbors_def)
qed

lemma card_step:
  assumes "p \<notin> visited"
  shows "9 * card (inBounds imageData - insert p visited) + 9
         \<le> 9 * card (inBounds imageData - visited) + (weight imageData p - 1)"
proof (cases "p \<in> inBounds imageData")
  case True
  then have "p \<in> inBounds imageData - visited" using assms by simp
  moreover have "inBounds imageData - insert p visited = (inBounds imageData - visited) - {p}"
    by auto
  ultimately have "card (inBounds imageData - insert p visited) + 1 = card (inBounds imageData - visited)"
    using finite_inBounds[of imageData]
    by (metis Suc_eq_plus1 card_Suc_Diff1 finite_Diff)
  then show ?thesis by (simp add: weight_def True)
next
  case False
  then have "inBounds imageData - insert p visited = inBounds imageData - visited" by auto
  then show ?thesis by (simp add: weight_def False)
qed

text \<open>The \<^verbatim>\<open>while (queue.length > 0)\<close> loop of \<^verbatim>\<open>floodFill\<close>: \<^verbatim>\<open>queue.shift()\<close> takes
  the head, \<^verbatim>\<open>queue.push\<close> appends.\<close>

function floodLoop ::
  "imageData \<Rightarrow> (int \<times> int) list \<Rightarrow> (int \<times> int) set \<Rightarrow> region \<Rightarrow> region \<times> (int \<times> int) set" where
  "floodLoop imageData [] visited region = (region, visited)"
| "floodLoop imageData (p # queue) visited region =
     (if p \<in> visited then floodLoop imageData queue visited region
      else if \<not> isPixelNonTransparent (getPixel imageData (fst p) (snd p))
      then floodLoop imageData queue visited region
      else floodLoop imageData
             (queue @ pushNeighbors imageData (insert p visited) (fst p) (snd p))
             (insert p visited)
             (addPoint region (fst p) (snd p)))"
  by pat_completeness auto
termination
proof (relation "measure floodMeasure")
  show "wf (measure floodMeasure)" by simp
next
  fix imageData p queue visited region
  show "((imageData, queue, visited, region), (imageData, p # queue, visited, region)) \<in> measure floodMeasure"
    by (simp add: floodMeasure_def weight_def)
next
  fix imageData p queue visited region
  show "((imageData, queue, visited, region), (imageData, p # queue, visited, region)) \<in> measure floodMeasure"
    by (simp add: floodMeasure_def weight_def)
next
  fix imageData :: imageData and p :: "int \<times> int" and queue :: "(int \<times> int) list"
    and visited :: "(int \<times> int) set" and region :: region
  assume nv: "p \<notin> visited"
  have w: "1 \<le> weight imageData p" by (simp add: weight_def)
  from card_step[OF nv, of imageData] pushNeighbors_weight[of imageData "insert p visited" "fst p" "snd p"] w
  show "((imageData, queue @ pushNeighbors imageData (insert p visited) (fst p) (snd p),
           insert p visited, addPoint region (fst p) (snd p)),
          (imageData, p # queue, visited, region)) \<in> measure floodMeasure"
    by (simp add: floodMeasure_def)
qed


definition floodFill ::
  "imageData \<Rightarrow> int \<Rightarrow> int \<Rightarrow> (int \<times> int) set \<Rightarrow> region \<times> (int \<times> int) set" where
  "floodFill imageData startX startY visited =
     floodLoop imageData [(startX, startY)] visited
       \<lparr>points = [], minX = of_int startX, maxX = of_int startX,
        minY = of_int startY, maxY = of_int startY\<rparr>"

text \<open>The first pass of \<^verbatim>\<open>detectRegions\<close>: the two \<^verbatim>\<open>for\<close> loops visit the pixels row
  by row, carrying \<^verbatim>\<open>visited\<close> and \<^verbatim>\<open>initialRegions\<close>.\<close>

definition scanOrder :: "imageData \<Rightarrow> (int \<times> int) list" where
  "scanOrder imageData =
     concat (map (\<lambda>y. map (\<lambda>x. (x, y)) [0 .. width imageData - 1]) [0 .. height imageData - 1])"

definition scanStep ::
  "imageData \<Rightarrow> real \<Rightarrow> (int \<times> int) set \<times> region list \<Rightarrow> int \<times> int
   \<Rightarrow> (int \<times> int) set \<times> region list" where
  "scanStep imageData minRegionSize st p =
     (let visited = fst st; initialRegions = snd st in
      if p \<in> visited then st
      else if \<not> isPixelNonTransparent (getPixel imageData (fst p) (snd p)) then st
      else
        (let res = floodFill imageData (fst p) (snd p) visited; region = fst res
         in (snd res,
             if real (length (points region)) \<ge> minRegionSize
             then initialRegions @ [region] else initialRegions)))"

definition firstPass :: "imageData \<Rightarrow> real \<Rightarrow> region list" where
  "firstPass imageData minRegionSize =
     snd (foldl (scanStep imageData minRegionSize) ({}, []) (scanOrder imageData))"

text \<open>The second pass: one round of the \<^verbatim>\<open>while (merged)\<close> loop looks for the first
  pair \<open>i < j\<close>, in the order of the two \<^verbatim>\<open>for\<close> loops, whose distance is at most
  \<^verbatim>\<open>groupingDistance\<close>; it merges the pair into slot \<open>i\<close>, removes slot \<open>j\<close>
  (\<^verbatim>\<open>splice(j, 1)\<close>) and starts again, or stops when there is no such pair.\<close>

definition pairs :: "nat \<Rightarrow> (nat \<times> nat) list" where
  "pairs n = concat (map (\<lambda>i. map (\<lambda>j. (i, j)) [i + 1 ..< n]) [0 ..< n])"

definition findPair :: "real \<Rightarrow> region list \<Rightarrow> (nat \<times> nat) option" where
  "findPair groupingDistance rs =
     find (\<lambda>ij. calculateRegionDistance (rs ! fst ij) (rs ! snd ij) \<le> groupingDistance)
       (pairs (length rs))"

definition mergeAt :: "region list \<Rightarrow> nat \<Rightarrow> nat \<Rightarrow> region list" where
  "mergeAt rs i j =
     (let mergedRegion = mergeRegions (rs ! i) (rs ! j)
      in (take j rs @ drop (j + 1) rs)[i := mergedRegion])"

lemma findPair_bounds:
  "findPair g rs = Some ij \<Longrightarrow> fst ij < snd ij \<and> snd ij < length rs"
proof -
  assume "findPair g rs = Some ij"
  then have "ij \<in> set (pairs (length rs))"
    unfolding findPair_def by (auto simp: find_Some_iff)
  then show ?thesis by (auto simp: pairs_def)
qed

function mergeLoop :: "real \<Rightarrow> region list \<Rightarrow> region list" where
  "mergeLoop groupingDistance rs =
     (case findPair groupingDistance rs of
        None \<Rightarrow> rs
      | Some ij \<Rightarrow> mergeLoop groupingDistance (mergeAt rs (fst ij) (snd ij)))"
  by pat_completeness auto
termination
proof (relation "measure (\<lambda>(g, rs). length rs)")
  show "wf (measure (\<lambda>(g, rs). length rs))" by simp
next
  fix groupingDistance :: real and rs :: "region list" and ij :: "nat \<times> nat"
  assume "findPair groupingDistance rs = Some ij"
  from findPair_bounds[OF this]
  show "((groupingDistance, mergeAt rs (fst ij) (snd ij)), (groupingDistance, rs))
        \<in> measure (\<lambda>(g, rs). length rs)"
    by (auto simp: mergeAt_def)
qed

declare mergeLoop.simps [simp del]

text \<open>The result: \<^verbatim>\<open>{id, bounds, elements}\<close> for each remaining region, ids from 1.\<close>

record detected =
  region_id :: nat
  bounds :: coords
  region_elements :: "element list"

definition detectRegions :: "imageData \<Rightarrow> real \<Rightarrow> real \<Rightarrow> detected list" where
  "detectRegions canvas minRegionSize groupingDistance =
     (let initialRegions = mergeLoop groupingDistance (firstPass canvas minRegionSize)
      in map (\<lambda>kr. \<lparr>region_id = fst kr + 1,
                     bounds = \<lparr>x1 = minX (snd kr), y1 = minY (snd kr),
                               x2 = maxX (snd kr), y2 = maxY (snd kr)\<rparr>,
                     region_elements = []\<rparr>)
           (enumerate 0 initialRegions))"

text \<open>The \<^verbatim>\<open>bounds\<close> that \<^verbatim>\<open>detectRegions\<close> reports for a region, and the union of
  three bounding boxes.\<close>

definition unionBounds :: "region \<Rightarrow> region \<Rightarrow> region \<Rightarrow> coords" where
  "unionBounds a b c =
     \<lparr>x1 = min (minX a) (min (minX b) (minX c)),
      y1 = min (minY a) (min (minY b) (minY c)),
      x2 = max (maxX a) (max (maxX b) (maxX c)),
      y2 = max (maxY a) (max (maxY b) (maxY c))\<rparr>"

definition boundsOf :: "region \<Rightarrow> coords" where
  "boundsOf r = \<lparr>x1 = minX r, y1 = minY r, x2 = maxX r, y2 = maxY r\<rparr>"

text \<open>A raster of five pixels in a row, the first, third and fifth opaque, and the
  region of a single pixel in the first row.\<close>

definition three_dots :: imageData where
  "three_dots = \<lparr>width = 5, height = 1,
                  data = [0,0,0,1, 0,0,0,0, 0,0,0,1, 0,0,0,0, 0,0,0,255]\<rparr>"

definition dot :: "real \<Rightarrow> region" where
  "dot x = \<lparr>points = [(x, 0)], minX = x, maxX = x, minY = 0, maxY = 0\<rparr>"

text \<open>The test both loops make before they take a pixel.\<close>

definition opaque :: "imageData \<Rightarrow> int \<times> int \<Rightarrow> bool" where
  "opaque img p = isPixelNonTransparent (getPixel img (fst p) (snd p))"

text \<open>
  The specification's blob, in its own words and without the functions above. The alpha
  of the pixel in column \<open>x\<close> of row \<open>y\<close> is the fourth of its four bytes, byte
  \<open>4 (y w + x) + 3\<close> of the data of a raster \<open>w\<close> wide (0 where the data ends before
  it). The ink is the pixels of the raster with alpha above 0. Two pixels are
  8-adjacent when they differ and their columns and their rows differ by at most one:
  the four that share an edge and the four that share a corner. Two ink pixels that are
  8-adjacent touch, and the blob of a pixel is all that a chain of touching pixels
  reaches from it. \<open>asPoint\<close> is the pixel as the pair of numbers stored in
  \<^verbatim>\<open>region.points\<close>.
\<close>

definition spec_alpha :: "imageData \<Rightarrow> int \<times> int \<Rightarrow> nat" where
  "spec_alpha img p =
     (let k = nat (4 * (snd p * width img + fst p) + 3)
      in if k < length (data img) then data img ! k else 0)"

definition ink :: "imageData \<Rightarrow> (int \<times> int) set" where
  "ink img =
     {p. 0 \<le> fst p \<and> fst p < width img \<and> 0 \<le> snd p \<and> snd p < height img
         \<and> 0 < spec_alpha img p}"

definition adjacent8 :: "int \<times> int \<Rightarrow> int \<times> int \<Rightarrow> bool" where
  "adjacent8 p q = (\<bar>fst q - fst p\<bar> \<le> 1 \<and> \<bar>snd q - snd p\<bar> \<le> 1 \<and> q \<noteq> p)"

definition touching :: "imageData \<Rightarrow> ((int \<times> int) \<times> (int \<times> int)) set" where
  "touching img = {(p, q). p \<in> ink img \<and> q \<in> ink img \<and> adjacent8 p q}"

definition blob :: "imageData \<Rightarrow> int \<times> int \<Rightarrow> (int \<times> int) set" where
  "blob img s = {p. (s, p) \<in> (touching img)\<^sup>*}"

definition asPoint :: "int \<times> int \<Rightarrow> real \<times> real" where
  "asPoint p = (of_int (fst p), of_int (snd p))"

text \<open>\<open>isBlob img r s\<close>: the points of region \<open>r\<close> list the blob of \<open>s\<close>, each
  pixel once.\<close>

definition isBlob :: "imageData \<Rightarrow> region \<Rightarrow> int \<times> int \<Rightarrow> bool" where
  "isBlob img r s =
     (\<exists>ps. points r = map asPoint ps \<and> distinct ps \<and> set ps = blob img s)"

definition closedUnder :: "imageData \<Rightarrow> (int \<times> int) set \<Rightarrow> bool" where
  "closedUnder img V = (\<forall>p \<in> V. \<forall>n. (p, n) \<in> touching img \<longrightarrow> n \<in> V)"

text \<open>The invariants of the two loops. For the queue loop of \<^verbatim>\<open>floodFill\<close>, started at
  \<open>s\<close> with \<open>V0\<close> visited: the points collected so far (\<open>ps\<close>) are new, distinct
  and in the blob, the queue holds pixels of the raster whose opaque ones are in the
  blob, every ink neighbour of a collected point is visited or queued, and the start is
  collected or queued. For the scan: the visited set is closed under touching, and the
  regions found so far are blobs, one for every visited ink pixel.\<close>

definition floodInv ::
  "imageData \<Rightarrow> (int \<times> int) set \<Rightarrow> int \<times> int \<Rightarrow> (int \<times> int) list \<Rightarrow> (int \<times> int) set
   \<Rightarrow> region \<Rightarrow> (int \<times> int) list \<Rightarrow> bool" where
  "floodInv img V0 s queue V r ps =
     (points r = map asPoint ps \<and> V = V0 \<union> set ps \<and> distinct ps
      \<and> set ps \<subseteq> blob img s
      \<and> set queue \<subseteq> inBounds img
      \<and> (\<forall>q \<in> set queue. opaque img q \<longrightarrow> q \<in> blob img s)
      \<and> (\<forall>p \<in> set ps. \<forall>n \<in> set (neighbors (fst p) (snd p)).
            n \<in> ink img \<longrightarrow> n \<in> V \<or> n \<in> set queue)
      \<and> (s \<in> set ps \<or> s \<in> set queue))"

definition scanInv :: "imageData \<Rightarrow> (int \<times> int) set \<times> region list \<Rightarrow> bool" where
  "scanInv img st =
     (closedUnder img (fst st)
      \<and> (\<forall>p \<in> fst st \<inter> ink img. \<exists>r \<in> set (snd st). isBlob img r p)
      \<and> (\<forall>r \<in> set (snd st). \<exists>s \<in> ink img. isBlob img r s))"

text \<open>A raster of one transparent pixel, and one of four columns and two rows: the
  pixels (0, 0) and (1, 1) are opaque and share a corner only, the pixel (3, 0) is opaque
  and apart from both. \<open>corner_pair\<close> is the region of the first two.\<close>

definition blank :: imageData where
  "blank = \<lparr>width = 1, height = 1, data = [0, 0, 0, 0]\<rparr>"

definition diag :: imageData where
  "diag = \<lparr>width = 4, height = 2,
            data = [0,0,0,255, 0,0,0,0, 0,0,0,0,   0,0,0,9,
                    0,0,0,0,   0,0,0,128, 0,0,0,0, 0,0,0,0]\<rparr>"

definition corner_pair :: region where
  "corner_pair = \<lparr>points = [(0, 0), (1, 1)], minX = 0, maxX = 1, minY = 0, maxY = 1\<rparr>"

section \<open>Properties of the history store\<close>

lemma reachable_index: "reachable i h \<Longrightarrow> index h < length (history h)"
proof (induction rule: reachable.induct)
  case r_init
  show ?case by (simp add: useHistory_def)
next
  case (r_set h act ov)
  then show ?case by (cases ov) (simp_all add: setState_def Let_def array_set_def)
next
  case (r_undo h)
  then show ?case by (auto simp: undo_def)
next
  case (r_redo h)
  then show ?case by (auto simp: redo_def)
qed

lemma overwrites_length:
  "index h < length (history h) \<Longrightarrow>
   length (history (overwrites as h)) = length (history h) \<and> index (overwrites as h) = index h"
proof (induction as arbitrary: h)
  case Nil
  show ?case by simp
next
  case (Cons a as)
  have "index (setState a True h) < length (history (setState a True h))"
    using Cons.prems by (simp add: setState_def Let_def array_set_def)
  from Cons.IH[OF this] Cons.prems show ?case
    by (simp add: setState_def Let_def array_set_def)
qed

text \<open>
  Claim C1. In every reachable state of the history store: a commit with overwrite
  replaces the snapshot at the cursor in place and changes neither the length of the
  history nor the cursor; a commit without overwrite keeps the snapshots up to the
  cursor, drops those after it, appends the new state and moves the cursor forward by
  one. After commit s1, commit s2, undo, commit s3 the current snapshot is s3 and redo
  changes nothing. After one commit followed by any number of overwriting commits,
  starting from the initial state, the history holds exactly two snapshots.
\<close>

theorem history_commit_semantics:
  assumes "reachable i h"
  shows "(history (setState (Value s) True h) = (history h)[index h := Some s]
          \<and> history (setState (Updater f) True h) = (history h)[index h := Some (f (current h))]
          \<and> length (history (setState act True h)) = length (history h)
          \<and> index (setState act True h) = index h)
       \<and> (history (setState (Value s) False h) = take (index h + 1) (history h) @ [Some s]
          \<and> history (setState (Updater f) False h)
              = take (index h + 1) (history h) @ [Some (f (current h))]
          \<and> index (setState act False h) = index h + 1)
       \<and> (let h' = setState (Value s3) False
                      (undo (setState (Value s2) False (setState (Value s1) False h)))
          in current h' = Some s3 \<and> redo h' = h')
       \<and> length (history (overwrites as (setState (Value base) False (useHistory i)))) = 2"
proof -
  have idx: "index h < length (history h)"
    using assms by (rule reachable_index)
  have ow: "history (setState (Value s) True h) = (history h)[index h := Some s]
          \<and> history (setState (Updater f) True h) = (history h)[index h := Some (f (current h))]
          \<and> length (history (setState act True h)) = length (history h)
          \<and> index (setState act True h) = index h"
    using idx by (simp add: setState_def Let_def array_set_def)
  have app: "history (setState (Value s) False h) = take (index h + 1) (history h) @ [Some s]
          \<and> history (setState (Updater f) False h)
              = take (index h + 1) (history h) @ [Some (f (current h))]
          \<and> index (setState act False h) = index h + 1"
    by (simp add: setState_def Let_def)
  have scen: "let h' = setState (Value s3) False
                      (undo (setState (Value s2) False (setState (Value s1) False h)))
          in current h' = Some s3 \<and> redo h' = h'"
  proof -
    define n where "n = index h"
    define H where "H = take (n + 1) (history h)"
    have lenH: "length H = n + 1"
      using idx by (simp add: H_def n_def)
    have c1: "setState (Value s1) False h = h\<lparr>history := H @ [Some s1], index := n + 1\<rparr>"
      by (simp add: setState_def H_def n_def)
    have c2: "setState (Value s2) False (setState (Value s1) False h)
              = h\<lparr>history := H @ [Some s1, Some s2], index := n + 2\<rparr>"
      using idx by (simp add: setState_def H_def n_def)
    have u: "undo (setState (Value s2) False (setState (Value s1) False h))
              = h\<lparr>history := H @ [Some s1, Some s2], index := n + 1\<rparr>"
      by (simp add: setState_def undo_def H_def n_def)
    have c3: "setState (Value s3) False
                (undo (setState (Value s2) False (setState (Value s1) False h)))
              = h\<lparr>history := H @ [Some s1, Some s3], index := n + 2\<rparr>"
      using idx by (simp add: setState_def undo_def H_def n_def)
    show ?thesis
      unfolding Let_def c3 using lenH by (simp add: current_def redo_def nth_append)
  qed
  have "index (setState (Value base) False (useHistory i))
        < length (history (setState (Value base) False (useHistory i)))"
    by (simp add: setState_def useHistory_def)
  from overwrites_length[OF this, of as]
  have two: "length (history (overwrites as (setState (Value base) False (useHistory i)))) = 2"
    by (simp add: setState_def useHistory_def)
  from ow app scen two show ?thesis by blast
qed

theorem history_commit_semantics_witness:
  "reachable (0::nat) (useHistory 0)
   \<and> current (setState (Value 3) False
        (undo (setState (Value 2) False (setState (Value 1) False (useHistory (0::nat)))))) = Some 3
   \<and> length (history (overwrites [Value 7, Value 8, Value 9]
        (setState (Value 5) False (useHistory (0::nat))))) = 2"
  using history_commit_semantics[OF r_init, of "0::nat" 0 "\<lambda>x. 0" "Value 0" 3 2 1
          "[Value 7, Value 8, Value 9]" 5]
  by (simp add: Let_def r_init)

section \<open>Properties of coordinate adjustment and resizing\<close>

text \<open>
  Claim C5. \<^verbatim>\<open>adjustElementCoordinates\<close> normalises and is idempotent: for a rectangle
  with its corners in any order the result has x1 at most x2 and y1 at most y2; for a
  line the result lists the same two endpoints, the one with the smaller x first (on
  equal x the one with the smaller y), and is the same whichever way the line was drawn;
  adjusting an element that already carries the adjusted coordinates gives them again.
\<close>

theorem adjust_canonical:
  "(etype e = ''rectangle'' \<longrightarrow>
      x1 (adjustElementCoordinates e) \<le> x2 (adjustElementCoordinates e)
      \<and> y1 (adjustElementCoordinates e) \<le> y2 (adjustElementCoordinates e))
   \<and> (etype e = ''line'' \<longrightarrow>
        (let c = adjustElementCoordinates e in
           (x1 c < x2 c \<or> (x1 c = x2 c \<and> y1 c \<le> y2 c))
           \<and> {(x1 c, y1 c), (x2 c, y2 c)} = {(x1 e, y1 e), (x2 e, y2 e)})
        \<and> adjustElementCoordinates
             (withCoords e \<lparr>x1 = x2 e, y1 = y2 e, x2 = x1 e, y2 = y1 e\<rparr>)
            = adjustElementCoordinates e)
   \<and> adjustElementCoordinates (withCoords e (adjustElementCoordinates e))
       = adjustElementCoordinates e"
proof -
  have rect: "etype e = ''rectangle'' \<longrightarrow>
      x1 (adjustElementCoordinates e) \<le> x2 (adjustElementCoordinates e)
      \<and> y1 (adjustElementCoordinates e) \<le> y2 (adjustElementCoordinates e)"
    by (simp add: adjustElementCoordinates_def Let_def min_le_iff_disj le_max_iff_disj)
  have line1: "etype e = ''line'' \<longrightarrow>
        (let c = adjustElementCoordinates e in
           (x1 c < x2 c \<or> (x1 c = x2 c \<and> y1 c \<le> y2 c))
           \<and> {(x1 c, y1 c), (x2 c, y2 c)} = {(x1 e, y1 e), (x2 e, y2 e)})"
    by (auto simp: adjustElementCoordinates_def Let_def)
  have line2: "etype e = ''line'' \<longrightarrow> adjustElementCoordinates
             (withCoords e \<lparr>x1 = x2 e, y1 = y2 e, x2 = x1 e, y2 = y1 e\<rparr>)
            = adjustElementCoordinates e"
    by (auto simp: adjustElementCoordinates_def withCoords_def)
  have idem: "adjustElementCoordinates (withCoords e (adjustElementCoordinates e))
       = adjustElementCoordinates e"
    by (auto simp: adjustElementCoordinates_def withCoords_def Let_def)
  from rect line1 line2 idem show ?thesis by blast
qed

theorem adjust_canonical_witness:
  "etype \<lparr>x1 = 10, y1 = 20, x2 = 0, y2 = 5, eid = 0, etype = ''rectangle'',
           epoints = None, esize = 3, etext = []\<rparr> = ''rectangle''
   \<and> adjustElementCoordinates
        \<lparr>x1 = 10, y1 = 20, x2 = 0, y2 = 5, eid = 0, etype = ''rectangle'',
         epoints = None, esize = 3, etext = []\<rparr> = \<lparr>x1 = 0, y1 = 5, x2 = 10, y2 = 20\<rparr>
   \<and> etype \<lparr>x1 = 5, y1 = 5, x2 = 1, y2 = 9, eid = 1, etype = ''line'',
           epoints = None, esize = 3, etext = []\<rparr> = ''line''
   \<and> adjustElementCoordinates
        \<lparr>x1 = 5, y1 = 5, x2 = 1, y2 = 9, eid = 1, etype = ''line'',
         epoints = None, esize = 3, etext = []\<rparr> = \<lparr>x1 = 1, y1 = 9, x2 = 5, y2 = 5\<rparr>
   \<and> adjustElementCoordinates
        (withCoords \<lparr>x1 = 5, y1 = 5, x2 = 1, y2 = 9, eid = 1, etype = ''line'',
                     epoints = None, esize = 3, etext = []\<rparr>
           \<lparr>x1 = 1, y1 = 9, x2 = 5, y2 = 5\<rparr>) = \<lparr>x1 = 1, y1 = 9, x2 = 5, y2 = 5\<rparr>"
  using adjust_canonical[of "\<lparr>x1 = 10, y1 = 20, x2 = 0, y2 = 5, eid = 0, etype = ''rectangle'',
           epoints = None, esize = 3, etext = []\<rparr>"]
        adjust_canonical[of "\<lparr>x1 = 5, y1 = 5, x2 = 1, y2 = 9, eid = 1, etype = ''line'',
           epoints = None, esize = 3, etext = []\<rparr>"]
  by (simp add: adjustElementCoordinates_def withCoords_def)

text \<open>
  Claim C8. \<^verbatim>\<open>resizedCoordinates\<close> moves exactly the corner its handle names: "tl" and
  "start" set (x1, y1) to the pointer, "tr" sets (y1, x2), "bl" sets (x1, y2), "br" and
  "end" set (x2, y2), and the other two coordinates keep their values; for every other
  tag the result is null (\<open>None\<close>).
\<close>

theorem resized_cases:
  "resizedCoordinates x y ''tl'' c = Some \<lparr>x1 = x, y1 = y, x2 = x2 c, y2 = y2 c\<rparr>
   \<and> resizedCoordinates x y ''start'' c = Some \<lparr>x1 = x, y1 = y, x2 = x2 c, y2 = y2 c\<rparr>
   \<and> resizedCoordinates x y ''tr'' c = Some \<lparr>x1 = x1 c, y1 = y, x2 = x, y2 = y2 c\<rparr>
   \<and> resizedCoordinates x y ''bl'' c = Some \<lparr>x1 = x, y1 = y1 c, x2 = x2 c, y2 = y\<rparr>
   \<and> resizedCoordinates x y ''br'' c = Some \<lparr>x1 = x1 c, y1 = y1 c, x2 = x, y2 = y\<rparr>
   \<and> resizedCoordinates x y ''end'' c = Some \<lparr>x1 = x1 c, y1 = y1 c, x2 = x, y2 = y\<rparr>
   \<and> (position \<notin> set [''tl'', ''start'', ''tr'', ''bl'', ''br'', ''end'']
        \<longrightarrow> resizedCoordinates x y position c = None)"
  by (simp add: resizedCoordinates_def)

theorem resized_cases_witness:
  "''inside'' \<notin> set [''tl'', ''start'', ''tr'', ''bl'', ''br'', ''end'']
   \<and> resizedCoordinates 7 8 ''inside'' \<lparr>x1 = 1, y1 = 2, x2 = 3, y2 = 4\<rparr> = None
   \<and> resizedCoordinates 7 8 ''tr'' \<lparr>x1 = 1, y1 = 2, x2 = 3, y2 = 4\<rparr>
       = Some \<lparr>x1 = 1, y1 = 8, x2 = 7, y2 = 4\<rparr>"
  using resized_cases[of 7 8 "\<lparr>x1 = 1, y1 = 2, x2 = 3, y2 = 4\<rparr>" "''inside''"]
  by simp

text \<open>The caller of \<^verbatim>\<open>resizedCoordinates\<close> takes the handle from the hit test and
  resizes only when it is not "inside": the handles that reach it are all resized.\<close>

lemma nearPoint_name: "nearPoint x y a b name = Some p \<Longrightarrow> p = name"
  by (simp add: nearPoint_def split: if_splits)

lemma onLine_name: "onLine a b c d x y t = Some p \<Longrightarrow> p = ''inside''"
  by (simp add: onLine_def Let_def split: if_splits)

lemma orElse_Some: "orElse u v = Some p \<Longrightarrow> u = Some p \<or> v = Some p"
  by (simp add: orElse_def split: option.splits)

lemma orElse_cases:
  assumes "orElse u v = Some p"
  obtains "u = Some p" | "v = Some p"
  using assms by (cases u) (simp_all add: orElse_def)

lemma hit_line:
  assumes "etype e = ''line''" "positionWithinElement x y e = Inr (Some p)"
  shows "p = ''start'' \<or> p = ''end'' \<or> p = ''inside''"
proof -
  from assms have c: "orElse (nearPoint x y (x1 e) (y1 e) ''start'')
        (orElse (nearPoint x y (x2 e) (y2 e) ''end'')
           (onLine (x1 e) (y1 e) (x2 e) (y2 e) x y 1)) = Some p"
    by (simp add: positionWithinElement_def Let_def)
  from c show ?thesis
  proof (cases rule: orElse_cases)
    case 1
    from nearPoint_name[OF this] show ?thesis by simp
  next
    case 2
    then show ?thesis
    proof (cases rule: orElse_cases)
      case 1
      from nearPoint_name[OF this] show ?thesis by simp
    next
      case 2
      from onLine_name[OF this] show ?thesis by simp
    qed
  qed
qed

lemma hit_rectangle:
  assumes "etype e = ''rectangle''" "positionWithinElement x y e = Inr (Some p)"
  shows "p = ''tl'' \<or> p = ''tr'' \<or> p = ''bl'' \<or> p = ''br'' \<or> p = ''inside''"
proof -
  define inside where "inside = (if x \<ge> x1 e \<and> x \<le> x2 e \<and> y \<ge> y1 e \<and> y \<le> y2 e
                   then Some ''inside'' else None)"
  have ins: "inside = Some p \<Longrightarrow> p = ''inside''"
    by (simp add: inside_def split: if_splits)
  from assms have c: "orElse (nearPoint x y (x1 e) (y1 e) ''tl'')
        (orElse (nearPoint x y (x2 e) (y1 e) ''tr'')
          (orElse (nearPoint x y (x1 e) (y2 e) ''bl'')
            (orElse (nearPoint x y (x2 e) (y2 e) ''br'') inside))) = Some p"
    by (simp add: positionWithinElement_def Let_def inside_def)
  from c show ?thesis
  proof (cases rule: orElse_cases)
    case 1
    from nearPoint_name[OF this] show ?thesis by simp
  next
    case 2
    then show ?thesis
    proof (cases rule: orElse_cases)
      case 1
      from nearPoint_name[OF this] show ?thesis by simp
    next
      case 2
      then show ?thesis
      proof (cases rule: orElse_cases)
        case 1
        from nearPoint_name[OF this] show ?thesis by simp
      next
        case 2
        then show ?thesis
        proof (cases rule: orElse_cases)
          case 1
          from nearPoint_name[OF this] show ?thesis by simp
        next
          case 2
          from ins[OF this] show ?thesis by simp
        qed
      qed
    qed
  qed
qed

lemma hit_pencil_text:
  assumes "etype e = ''pencil'' \<or> etype e = ''text''"
    "positionWithinElement x y e = Inr (Some p)"
  shows "p = ''inside''"
  using assms
  by (auto simp: positionWithinElement_def Let_def split: option.splits if_splits)

lemma hit_positions:
  assumes "positionWithinElement x y e = Inr (Some p)"
  shows "p = ''start'' \<or> p = ''end'' \<or> p = ''inside'' \<or> p = ''tl'' \<or> p = ''tr''
         \<or> p = ''bl'' \<or> p = ''br''"
proof -
  have known: "etype e = ''line'' \<or> etype e = ''rectangle'' \<or> etype e = ''pencil''
      \<or> etype e = ''text''"
  proof (rule ccontr)
    assume "\<not> ?thesis"
    then have "positionWithinElement x y e = Inl (TypeNotRecognised (etype e))"
      by (simp add: positionWithinElement_def)
    with assms show False by simp
  qed
  then show ?thesis
  proof (elim disjE)
    assume t: "etype e = ''line''"
    from hit_line[OF t assms] show ?thesis by (elim disjE) simp_all
  next
    assume t: "etype e = ''rectangle''"
    from hit_rectangle[OF t assms] show ?thesis by (elim disjE) simp_all
  next
    assume t: "etype e = ''pencil''"
    from hit_pencil_text[OF disjI1[OF t] assms] show ?thesis by simp
  next
    assume t: "etype e = ''text''"
    from hit_pencil_text[OF disjI2[OF t] assms] show ?thesis by simp
  qed
qed

lemma resize_defined:
  assumes "positionWithinElement x y e = Inr (Some p)" "p \<noteq> ''inside''"
  shows "resizedCoordinates a b p c \<noteq> None"
  using hit_positions[OF assms(1)] assms(2)
  by (elim disjE) (simp_all add: resizedCoordinates_def)

section \<open>Properties of zooming\<close>

text \<open>
  Claim C9. Whatever the scale and the delta, \<^verbatim>\<open>onZoom\<close> gives a scale between 0.1 and
  2; so does every sequence of zoom steps from the initial scale 1.
\<close>

theorem zoom_bounds:
  "1 / 10 \<le> onZoom delta s \<and> onZoom delta s \<le> 2
   \<and> 1 / 10 \<le> zoomAll deltas 1 \<and> zoomAll deltas 1 \<le> 2"
proof -
  have one: "\<And>d t. 1 / 10 \<le> onZoom d t \<and> onZoom d t \<le> 2"
    by (simp add: onZoom_def)
  have all: "\<And>t. 1 / 10 \<le> t \<and> t \<le> 2 \<Longrightarrow> 1 / 10 \<le> zoomAll deltas t \<and> zoomAll deltas t \<le> 2"
  proof (induction deltas)
    case Nil
    then show ?case by simp
  next
    case (Cons d ds)
    show ?case using Cons.IH[OF one[of d t]] by simp
  qed
  from one[of delta s] all[of 1] show ?thesis by simp
qed

section \<open>The id of an element and its position in the array\<close>

lemma idIsIndex_nth:
  "idIsIndex es \<longleftrightarrow> (\<forall>k < length es. \<forall>e. es ! k = Elem e \<longrightarrow> eid e = k)"
proof
  assume a: "idIsIndex es"
  show "\<forall>k < length es. \<forall>e. es ! k = Elem e \<longrightarrow> eid e = k"
  proof (intro allI impI)
    fix k e assume k: "k < length es" and e: "es ! k = Elem e"
    then have "(k, Elem e) \<in> set (enumerate 0 es)" by (simp add: in_set_enumerate_eq)
    with a show "eid e = k" unfolding idIsIndex_def list_all_iff by fastforce
  qed
next
  assume a: "\<forall>k < length es. \<forall>e. es ! k = Elem e \<longrightarrow> eid e = k"
  show "idIsIndex es"
    unfolding idIsIndex_def list_all_iff
  proof
    fix ks assume "ks \<in> set (enumerate 0 es)"
    then have "fst ks < length es" "es ! fst ks = snd ks" by (simp_all add: in_set_enumerate_eq)
    with a show "case snd ks of Elem e \<Rightarrow> eid e = fst ks | Hole \<Rightarrow> True | Undef \<Rightarrow> True"
      by (cases "snd ks") auto
  qed
qed

lemma length_spread: "length (spread es) = length es"
  by (simp add: spread_def)

lemma spread_Elem: "k < length es \<Longrightarrow> spread es ! k = Elem e \<longleftrightarrow> es ! k = Elem e"
  by (cases "es ! k") (simp_all add: spread_def)

lemma spread_preserves: "idIsIndex es \<Longrightarrow> idIsIndex (spread es)"
  by (simp add: idIsIndex_nth length_spread spread_Elem)

lemma write_slot_preserves:
  assumes "idIsIndex es" "eid e = i"
  shows "idIsIndex (write_slot es i e)"
proof (cases "i < length es")
  case True
  then show ?thesis
    using assms by (auto simp: write_slot_def idIsIndex_nth nth_list_update)
next
  case False
  have "\<forall>k < length (write_slot es i e). \<forall>el. write_slot es i e ! k = Elem el \<longrightarrow> eid el = k"
  proof (intro allI impI)
    fix k el assume k: "k < length (write_slot es i e)" and el: "write_slot es i e ! k = Elem el"
    from k False have "k < Suc i" by (simp add: write_slot_def)
    then consider (old) "k < length es" | (gap) "length es \<le> k" "k < i" | (new) "k = i"
      by linarith
    then show "eid el = k"
    proof cases
      case old
      with el False assms(1) show ?thesis by (simp add: write_slot_def nth_append idIsIndex_nth)
    next
      case gap
      then have "k - length es < i - length es" by linarith
      with gap el False show ?thesis by (simp add: write_slot_def nth_append)
    next
      case new
      with el False assms(2) show ?thesis by (simp add: write_slot_def nth_append)
    qed
  qed
  then show ?thesis by (simp only: idIsIndex_nth)
qed

lemma createElement_eid: "createElement i a b c d t s = Inr e \<Longrightarrow> eid e = i"
  by (auto simp: createElement_def split: if_splits)

lemma updateElement_preserves:
  assumes "idIsIndex es" "updateElement mt ps es i a b c d t opt = Inr es'"
  shows "idIsIndex es'"
proof -
  note sp = spread_preserves[OF assms(1)]
  consider (shape) "t = ''line'' \<or> t = ''rectangle''" | (pencil) "t = ''pencil''"
    | (textual) "t = ''text''" | (other) "t \<notin> {''line'', ''rectangle'', ''pencil'', ''text''}"
    by blast
  then show ?thesis
  proof cases
    case shape
    then obtain e where e: "createElement i a b c d t 3 = Inr e"
      and w: "es' = write_slot (spread es) i (e\<lparr>esize := ps\<rparr>)"
      using assms(2) by (auto simp: updateElement_def Let_def split: sum.splits)
    from createElement_eid[OF e] have "eid (e\<lparr>esize := ps\<rparr>) = i" by simp
    from write_slot_preserves[OF sp this] show ?thesis by (simp add: w)
  next
    case pencil
    then obtain el pts where i: "i < length (spread es)" and el: "spread es ! i = Elem el"
      and es': "es' = (spread es)[i := Elem (el\<lparr>epoints := Some pts\<rparr>)]"
      using assms(2)
      by (auto simp: updateElement_def Let_def split: if_splits slot.splits option.splits)
    from sp i el have id: "eid el = i" by (simp add: idIsIndex_nth)
    have "\<forall>k < length es'. \<forall>e. es' ! k = Elem e \<longrightarrow> eid e = k"
    proof (intro allI impI)
      fix k e assume k: "k < length es'" and e: "es' ! k = Elem e"
      show "eid e = k"
      proof (cases "k = i")
        case True
        with e i id show ?thesis by (auto simp: es')
      next
        case False
        with e k sp show ?thesis by (simp add: es' idIsIndex_nth)
      qed
    qed
    then show ?thesis by (simp only: idIsIndex_nth)
  next
    case textual
    then obtain s e where e: "createElement i a b (a + mt s) (b + 24) t 3 = Inr e"
      and w: "es' = write_slot (spread es) i (e\<lparr>etext := s\<rparr>)"
      using assms(2) by (auto simp: updateElement_def Let_def split: sum.splits option.splits)
    from createElement_eid[OF e] have "eid (e\<lparr>etext := s\<rparr>) = i" by simp
    from write_slot_preserves[OF sp this] show ?thesis by (simp add: w)
  next
    case other
    then show ?thesis using assms(2) by (simp add: updateElement_def)
  qed
qed

lemma createAt_preserves:
  assumes "idIsIndex es" "createAt tool x y s es = Inr es'"
  shows "idIsIndex es'"
proof -
  from assms(2) obtain e where e: "createElement (length es) x y x y tool s = Inr e"
    and es': "es' = spread es @ [Elem e]"
    by (auto simp: createAt_def Let_def split: sum.splits)
  from createElement_eid[OF e] spread_preserves[OF assms(1)] show ?thesis
    by (auto simp: es' idIsIndex_nth nth_append length_spread)
qed

lemma pos_a: "positionWithinElement 5 5 rect_a = Inr (Some ''inside'')"
  by (simp add: positionWithinElement_def rect_a_def nearPoint_def orElse_def Let_def)

lemma pos_b: "positionWithinElement 5 5 rect_b = Inr None"
  by (simp add: positionWithinElement_def rect_b_def nearPoint_def orElse_def Let_def)

text \<open>
  Claim C7. Creation and \<^verbatim>\<open>updateElement\<close> keep every id equal to its position (the
  lemmas above); the eraser does not: with two rectangles of ids 0 and 1 in the array,
  erasing at (5, 5) removes the first by \<^verbatim>\<open>filter\<close>, and the rectangle of id 1 is left
  at position 0. Moving that rectangle afterwards writes slot 1, its id: the array then
  holds the rectangle where it was and a second element of id 1 where it was moved to.
\<close>

theorem eraser_breaks_id_is_index:
  "idIsIndex [Elem rect_a, Elem rect_b]
   \<and> eraseAt 5 5 [Elem rect_a, Elem rect_b] = Inr [Elem rect_b]
   \<and> \<not> idIsIndex [Elem rect_b]
   \<and> updateElement mt 3 [Elem rect_b] (eid rect_b) 200 200 210 210 (etype rect_b) None
       = Inr [Elem rect_b,
              Elem \<lparr>x1 = 200, y1 = 200, x2 = 210, y2 = 210, eid = 1, etype = ''rectangle'',
                    epoints = None, esize = 3, etext = []\<rparr>]"
proof -
  have e: "eid rect_a = 0" "eid rect_b = 1" by (simp_all add: rect_a_def rect_b_def)
  have 1: "idIsIndex [Elem rect_a, Elem rect_b]"
    by (simp add: idIsIndex_def e enumerate_simps)
  have 2: "eraseAt 5 5 [Elem rect_a, Elem rect_b] = Inr [Elem rect_b]"
    by (simp add: eraseAt_def getElementAtPosition_def pos_a pos_b e)
  have 3: "\<not> idIsIndex [Elem rect_b]"
    by (simp add: idIsIndex_def e enumerate_simps)
  have 4: "updateElement mt 3 [Elem rect_b] (eid rect_b) 200 200 210 210 (etype rect_b) None
       = Inr [Elem rect_b,
              Elem \<lparr>x1 = 200, y1 = 200, x2 = 210, y2 = 210, eid = 1, etype = ''rectangle'',
                    epoints = None, esize = 3, etext = []\<rparr>]"
    by (simp add: updateElement_def createElement_def write_slot_def spread_def rect_b_def)
  from 1 2 3 4 show ?thesis by blast
qed

section \<open>Hit testing a capture element\<close>

text \<open>
  Claim C6. \<^verbatim>\<open>positionWithinElement\<close> has no branch for the type "capture": on every
  capture element and at every point it throws "Type not recognised: capture", where a
  rectangle with the same coordinates answers with a corner or "inside"; and so does
  \<^verbatim>\<open>getElementAtPosition\<close> on the array that the capture tool has just added to.
\<close>

theorem capture_hit_test_throws:
  "positionWithinElement x y
      \<lparr>x1 = a, y1 = b, x2 = c, y2 = d, eid = i, etype = ''capture'',
       epoints = ps, esize = s, etext = t\<rparr> = Inl (TypeNotRecognised ''capture'')
   \<and> positionWithinElement 0 0
      \<lparr>x1 = 0, y1 = 0, x2 = 10, y2 = 10, eid = 0, etype = ''rectangle'',
       epoints = None, esize = 0, etext = []\<rparr> = Inr (Some ''tl'')
   \<and> createAt ''capture'' 0 0 3 [] =
        Inr [Elem \<lparr>x1 = 0, y1 = 0, x2 = 0, y2 = 0, eid = 0, etype = ''capture'',
                   epoints = None, esize = 0, etext = []\<rparr>]
   \<and> getElementAtPosition 0 0
        [Elem \<lparr>x1 = 0, y1 = 0, x2 = 0, y2 = 0, eid = 0, etype = ''capture'',
                epoints = None, esize = 0, etext = []\<rparr>] = Inl (TypeNotRecognised ''capture'')"
  by (simp add: positionWithinElement_def nearPoint_def orElse_def Let_def createAt_def
        createElement_def getElementAtPosition_def spread_def)

section \<open>Properties of the distance between regions\<close>

lemma distance_commute: "calculateRegionDistance r1 r2 = calculateRegionDistance r2 r1"
proof -
  have dx: "min \<bar>maxX r1 - minX r2\<bar> \<bar>minX r1 - maxX r2\<bar>
          = min \<bar>maxX r2 - minX r1\<bar> \<bar>minX r2 - maxX r1\<bar>"
    by (simp add: abs_minus_commute min.commute)
  have dy: "min \<bar>maxY r1 - minY r2\<bar> \<bar>minY r1 - maxY r2\<bar>
          = min \<bar>maxY r2 - minY r1\<bar> \<bar>minY r2 - maxY r1\<bar>"
    by (simp add: abs_minus_commute min.commute)
  have ox: "(maxX r1 < minX r2 \<or> minX r1 > maxX r2) = (maxX r2 < minX r1 \<or> minX r2 > maxX r1)"
    by auto
  have oy: "(maxY r1 < minY r2 \<or> minY r1 > maxY r2) = (maxY r2 < minY r1 \<or> minY r2 > maxY r1)"
    by auto
  show ?thesis
    unfolding calculateRegionDistance_def Let_def dx dy ox oy ..
qed

text \<open>
  Claim C10. The distance between two regions does not depend on their order.
\<close>

theorem distance_symmetric:
  "calculateRegionDistance r1 r2 = calculateRegionDistance r2 r1"
  by (rule distance_commute)

lemma axis_term:
  assumes "lo1 \<le> hi1" "lo2 \<le> (hi2::real)"
  shows "(if \<not> (\<not> (hi1 < lo2 \<or> lo1 > hi2)) then min \<bar>hi1 - lo2\<bar> \<bar>lo1 - hi2\<bar> else 0)
         = spec_gap lo1 hi1 lo2 hi2"
  using assms by (auto simp: spec_gap_def min_def)

lemma gap_nonneg: "lo1 \<le> hi1 \<Longrightarrow> lo2 \<le> hi2 \<Longrightarrow> 0 \<le> spec_gap lo1 hi1 lo2 hi2"
  by (simp add: spec_gap_def)

lemma gap_zero_iff:
  "lo1 \<le> hi1 \<Longrightarrow> lo2 \<le> hi2 \<Longrightarrow> spec_gap lo1 hi1 lo2 hi2 = 0 \<longleftrightarrow> spec_overlap lo1 hi1 lo2 hi2"
  by (auto simp: spec_gap_def spec_overlap_def)

lemma distance_as_gaps:
  assumes "boxOK r1" "boxOK r2"
  shows "calculateRegionDistance r1 r2
         = sqrt ((spec_gap (minX r1) (maxX r1) (minX r2) (maxX r2))\<^sup>2
               + (spec_gap (minY r1) (maxY r1) (minY r2) (maxY r2))\<^sup>2)"
proof -
  have x: "minX r1 \<le> maxX r1" "minX r2 \<le> maxX r2" and y: "minY r1 \<le> maxY r1" "minY r2 \<le> maxY r2"
    using assms by (simp_all add: boxOK_def)
  let ?gx = "spec_gap (minX r1) (maxX r1) (minX r2) (maxX r2)"
  let ?gy = "spec_gap (minY r1) (maxY r1) (minY r2) (maxY r2)"
  have ox: "(\<not> (maxX r1 < minX r2 \<or> minX r1 > maxX r2)) \<longleftrightarrow> ?gx = 0"
    using x by (auto simp: spec_gap_def)
  have oy: "(\<not> (maxY r1 < minY r2 \<or> minY r1 > maxY r2)) \<longleftrightarrow> ?gy = 0"
    using y by (auto simp: spec_gap_def)
  show ?thesis
  proof (cases "?gx = 0 \<and> ?gy = 0")
    case True
    then show ?thesis
      unfolding calculateRegionDistance_def Let_def ox oy by simp
  next
    case False
    then show ?thesis
      unfolding calculateRegionDistance_def Let_def axis_term[OF x] axis_term[OF y]
      using ox oy by (simp add: power2_eq_square)
  qed
qed

text \<open>
  Claim C3. For two regions with proper bounding boxes, the distance is 0 exactly when
  the boxes overlap on both axes, and otherwise it is the square root of the sum of the
  squares of the gap on x and the gap on y, a gap being 0 on an axis where the intervals
  overlap.
\<close>

theorem distance_zero_iff_overlap:
  assumes "boxOK r1" "boxOK r2"
  shows "(calculateRegionDistance r1 r2 = 0 \<longleftrightarrow>
            spec_overlap (minX r1) (maxX r1) (minX r2) (maxX r2)
            \<and> spec_overlap (minY r1) (maxY r1) (minY r2) (maxY r2))
         \<and> (\<not> (spec_overlap (minX r1) (maxX r1) (minX r2) (maxX r2)
                \<and> spec_overlap (minY r1) (maxY r1) (minY r2) (maxY r2)) \<longrightarrow>
            calculateRegionDistance r1 r2
              = sqrt ((spec_gap (minX r1) (maxX r1) (minX r2) (maxX r2))\<^sup>2
                    + (spec_gap (minY r1) (maxY r1) (minY r2) (maxY r2))\<^sup>2))"
proof -
  have x: "minX r1 \<le> maxX r1" "minX r2 \<le> maxX r2" and y: "minY r1 \<le> maxY r1" "minY r2 \<le> maxY r2"
    using assms by (simp_all add: boxOK_def)
  have "calculateRegionDistance r1 r2 = 0 \<longleftrightarrow>
          spec_gap (minX r1) (maxX r1) (minX r2) (maxX r2) = 0
          \<and> spec_gap (minY r1) (maxY r1) (minY r2) (maxY r2) = 0"
    unfolding distance_as_gaps[OF assms]
    by (simp add: sum_power2_eq_zero_iff)
  then show ?thesis
    using distance_as_gaps[OF assms] gap_zero_iff[OF x] gap_zero_iff[OF y] by simp
qed

theorem distance_zero_iff_overlap_witness:
  "boxOK \<lparr>points = [], minX = 0, maxX = 1, minY = 0, maxY = 1\<rparr>
   \<and> boxOK \<lparr>points = [], minX = 3, maxX = 4, minY = 0, maxY = 1\<rparr>
   \<and> \<not> spec_overlap 0 1 3 4
   \<and> calculateRegionDistance \<lparr>points = [], minX = 0, maxX = 1, minY = 0, maxY = 1\<rparr>
         \<lparr>points = [], minX = 3, maxX = 4, minY = 0, maxY = 1\<rparr> = 2"
proof -
  have a: "boxOK \<lparr>points = [], minX = 0, maxX = 1, minY = 0, maxY = 1\<rparr>"
    and b: "boxOK \<lparr>points = [], minX = 3, maxX = 4, minY = 0, maxY = 1\<rparr>"
    by (simp_all add: boxOK_def)
  from distance_zero_iff_overlap[OF a b] a b show ?thesis
    by (simp add: spec_overlap_def spec_gap_def)
qed

section \<open>Properties of the merge pass\<close>

lemma gap_mono:
  assumes "a1 \<le> a2" "b1 \<le> b2" "c1 \<le> (c2::real)"
  shows "spec_gap (min a1 b1) (max a2 b2) c1 c2 \<le> spec_gap a1 a2 c1 c2"
  using assms by (auto simp: spec_gap_def min_def max_def)

lemma gap_mono':
  assumes "a1 \<le> a2" "b1 \<le> b2" "c1 \<le> (c2::real)"
  shows "spec_gap (min a1 b1) (max a2 b2) c1 c2 \<le> spec_gap b1 b2 c1 c2"
  using assms by (auto simp: spec_gap_def min_def max_def)

lemma boxOK_merge: "boxOK r1 \<Longrightarrow> boxOK r2 \<Longrightarrow> boxOK (mergeRegions r1 r2)"
  by (auto simp: boxOK_def mergeRegions_def min_le_iff_disj le_max_iff_disj)

lemma sqrt_sq_mono:
  assumes "0 \<le> a" "a \<le> b" "0 \<le> c" "c \<le> (d::real)"
  shows "sqrt (a\<^sup>2 + c\<^sup>2) \<le> sqrt (b\<^sup>2 + d\<^sup>2)"
proof -
  have "a\<^sup>2 \<le> b\<^sup>2" using assms by (simp add: power_mono)
  moreover have "c\<^sup>2 \<le> d\<^sup>2" using assms by (simp add: power_mono)
  ultimately show ?thesis by simp
qed

lemma merge_closer_left:
  assumes "boxOK r1" "boxOK r2" "boxOK r3"
  shows "calculateRegionDistance (mergeRegions r1 r2) r3 \<le> calculateRegionDistance r1 r3"
proof -
  have x: "minX r1 \<le> maxX r1" "minX r2 \<le> maxX r2" "minX r3 \<le> maxX r3"
    and y: "minY r1 \<le> maxY r1" "minY r2 \<le> maxY r2" "minY r3 \<le> maxY r3"
    using assms by (simp_all add: boxOK_def)
  have m: "boxOK (mergeRegions r1 r2)" using assms by (simp add: boxOK_merge)
  have mx: "minX (mergeRegions r1 r2) \<le> maxX (mergeRegions r1 r2)"
    and my: "minY (mergeRegions r1 r2) \<le> maxY (mergeRegions r1 r2)"
    using m by (simp_all add: boxOK_def)
  have sel: "minX (mergeRegions r1 r2) = min (minX r1) (minX r2)"
            "maxX (mergeRegions r1 r2) = max (maxX r1) (maxX r2)"
            "minY (mergeRegions r1 r2) = min (minY r1) (minY r2)"
            "maxY (mergeRegions r1 r2) = max (maxY r1) (maxY r2)"
    by (simp_all add: mergeRegions_def)
  show ?thesis
    unfolding distance_as_gaps[OF m assms(3)] distance_as_gaps[OF assms(1) assms(3)] sel
    by (rule sqrt_sq_mono)
       (simp_all only: gap_nonneg[OF mx[unfolded sel] x(3)] gap_nonneg[OF my[unfolded sel] y(3)]
          gap_mono[OF x] gap_mono[OF y])
qed

lemma merge_closer_right:
  assumes "boxOK r1" "boxOK r2" "boxOK r3"
  shows "calculateRegionDistance (mergeRegions r1 r2) r3 \<le> calculateRegionDistance r2 r3"
proof -
  have x: "minX r1 \<le> maxX r1" "minX r2 \<le> maxX r2" "minX r3 \<le> maxX r3"
    and y: "minY r1 \<le> maxY r1" "minY r2 \<le> maxY r2" "minY r3 \<le> maxY r3"
    using assms by (simp_all add: boxOK_def)
  have m: "boxOK (mergeRegions r1 r2)" using assms by (simp add: boxOK_merge)
  have mx: "minX (mergeRegions r1 r2) \<le> maxX (mergeRegions r1 r2)"
    and my: "minY (mergeRegions r1 r2) \<le> maxY (mergeRegions r1 r2)"
    using m by (simp_all add: boxOK_def)
  have sel: "minX (mergeRegions r1 r2) = min (minX r1) (minX r2)"
            "maxX (mergeRegions r1 r2) = max (maxX r1) (maxX r2)"
            "minY (mergeRegions r1 r2) = min (minY r1) (minY r2)"
            "maxY (mergeRegions r1 r2) = max (maxY r1) (maxY r2)"
    by (simp_all add: mergeRegions_def)
  show ?thesis
    unfolding distance_as_gaps[OF m assms(3)] distance_as_gaps[OF assms(2) assms(3)] sel
    by (rule sqrt_sq_mono)
       (simp_all only: gap_nonneg[OF mx[unfolded sel] x(3)] gap_nonneg[OF my[unfolded sel] y(3)]
          gap_mono'[OF x] gap_mono'[OF y])
qed

lemma pairs_1: "pairs (Suc 0) = []" by (simp add: pairs_def)
lemma pairs_2: "pairs (Suc (Suc 0)) = [(0, 1)]" by (simp add: pairs_def upt_rec)
lemma pairs_3: "pairs (Suc (Suc (Suc 0))) = [(0, 1), (0, 2), (1, 2)]"
  by (simp add: pairs_def upt_rec)

lemma findPair_one: "findPair g [r] = None"
  by (simp add: findPair_def pairs_1)

lemma findPair_two:
  "findPair g [r, s] = (if calculateRegionDistance r s \<le> g then Some (0, 1) else None)"
  by (simp add: findPair_def pairs_2)

lemma findPair_three:
  "findPair g [r, s, t] =
     (if calculateRegionDistance r s \<le> g then Some (0, 1)
      else if calculateRegionDistance r t \<le> g then Some (0, 2)
      else if calculateRegionDistance s t \<le> g then Some (1, 2) else None)"
  by (simp add: findPair_def pairs_3)

lemma mergeLoop_one: "mergeLoop g [r] = [r]"
  by (subst mergeLoop.simps) (simp add: findPair_one)

lemma mergeLoop_two_near:
  "calculateRegionDistance r s \<le> g \<Longrightarrow> mergeLoop g [r, s] = [mergeRegions r s]"
  by (subst mergeLoop.simps) (simp add: findPair_two mergeAt_def mergeLoop_one)

lemma mergeLoop_three_first:
  assumes "calculateRegionDistance r s \<le> g"
    and "calculateRegionDistance (mergeRegions r s) t \<le> g"
  shows "mergeLoop g [r, s, t] = [mergeRegions (mergeRegions r s) t]"
  using assms
  by (subst mergeLoop.simps) (simp add: findPair_three mergeAt_def mergeLoop_two_near)

lemma mergeLoop_three_second:
  assumes "\<not> calculateRegionDistance r s \<le> g" "calculateRegionDistance r t \<le> g"
    and "calculateRegionDistance (mergeRegions r t) s \<le> g"
  shows "mergeLoop g [r, s, t] = [mergeRegions (mergeRegions r t) s]"
  using assms
  by (subst mergeLoop.simps) (simp add: findPair_three mergeAt_def mergeLoop_two_near)


lemma mergeLoop_no_pair: "findPair g (mergeLoop g rs) = None"
proof (induction g rs rule: mergeLoop.induct)
  case (1 g rs)
  show ?case
  proof (cases "findPair g rs")
    case None
    then show ?thesis by (subst mergeLoop.simps) simp
  next
    case (Some ij)
    with "1.IH"[OF Some] show ?thesis by (subst mergeLoop.simps) simp
  qed
qed

lemma in_pairs: "(i, j) \<in> set (pairs n) \<longleftrightarrow> i < j \<and> j < n"
proof
  assume "(i, j) \<in> set (pairs n)"
  then show "i < j \<and> j < n" by (auto simp: pairs_def)
next
  assume a: "i < j \<and> j < n"
  then have "i \<in> {0..<n}" "(i, j) \<in> Pair i ` {Suc i..<n}" by auto
  then show "(i, j) \<in> set (pairs n)" by (auto simp: pairs_def)
qed

lemma findPair_None_iff:
  "findPair g rs = None \<longleftrightarrow>
     (\<forall>i j. i < j \<and> j < length rs \<longrightarrow> g < calculateRegionDistance (rs ! i) (rs ! j))"
proof -
  have "findPair g rs = None \<longleftrightarrow>
          (\<forall>i j. (i, j) \<in> set (pairs (length rs)) \<longrightarrow>
                 \<not> calculateRegionDistance (rs ! i) (rs ! j) \<le> g)"
    by (simp add: findPair_def find_None_iff)
  then show ?thesis by (simp add: in_pairs not_le)
qed

lemma floodLoop_boxOK: "boxOK r \<Longrightarrow> boxOK (fst (floodLoop img q V r))"
proof (induction img q V r rule: floodLoop.induct)
  case (1 img V r)
  then show ?case by simp
next
  case (2 img p q V r)
  have "boxOK (addPoint r (fst p) (snd p))"
    using "2.prems" by (auto simp: boxOK_def addPoint_def min_le_iff_disj le_max_iff_disj)
  with 2 show ?case by simp
qed

lemma floodFill_boxOK: "boxOK (fst (floodFill img sx sy V))"
  unfolding floodFill_def by (rule floodLoop_boxOK) (simp add: boxOK_def)

lemma scanStep_boxOK:
  assumes "\<forall>r \<in> set (snd st). boxOK r"
  shows "\<forall>r \<in> set (snd (scanStep img m st p)). boxOK r"
  using assms floodFill_boxOK[of img "fst p" "snd p" "fst st"]
  by (simp add: scanStep_def Let_def)

lemma scan_boxOK:
  "\<forall>r \<in> set (snd st). boxOK r \<Longrightarrow> \<forall>r \<in> set (snd (foldl (scanStep img m) st ps)). boxOK r"
proof (induction ps arbitrary: st)
  case Nil
  then show ?case by simp
next
  case (Cons p ps)
  from Cons.IH[OF scanStep_boxOK[OF Cons.prems]] show ?case by simp
qed

lemma firstPass_boxOK: "r \<in> set (firstPass img m) \<Longrightarrow> boxOK r"
  using scan_boxOK[of "({}, [])" img m "scanOrder img"] by (simp add: firstPass_def)

lemma bounds_merge3:
  "boundsOf (mergeRegions (mergeRegions r s) t) = unionBounds r s t"
  by (simp add: boundsOf_def unionBounds_def mergeRegions_def min.assoc max.assoc)

lemma unionBounds_perm:
  "unionBounds a c b = unionBounds a b c" "unionBounds b a c = unionBounds a b c"
  by (simp_all add: unionBounds_def min.left_commute max.left_commute min.commute max.commute)

text \<open>Three regions of which one pair is near and a second pair shares a region with
  it: the loop merges all three, whatever their order in the list.\<close>

lemma merge_three:
  assumes ok: "boxOK r1" "boxOK r2" "boxOK r3"
    and near: "(calculateRegionDistance r1 r2 \<le> g \<and>
                 (calculateRegionDistance r1 r3 \<le> g \<or> calculateRegionDistance r2 r3 \<le> g))
               \<or> (calculateRegionDistance r1 r3 \<le> g \<and> calculateRegionDistance r2 r3 \<le> g)"
  shows "map boundsOf (mergeLoop g [r1, r2, r3]) = [unionBounds r1 r2 r3]"
proof (cases "calculateRegionDistance r1 r2 \<le> g")
  case True
  with near have "calculateRegionDistance r1 r3 \<le> g \<or> calculateRegionDistance r2 r3 \<le> g"
    by blast
  with merge_closer_left[OF ok] merge_closer_right[OF ok]
  have "calculateRegionDistance (mergeRegions r1 r2) r3 \<le> g" by linarith
  from mergeLoop_three_first[OF True this] show ?thesis
    by (simp add: bounds_merge3)
next
  case False
  with near have n: "calculateRegionDistance r1 r3 \<le> g" "calculateRegionDistance r2 r3 \<le> g"
    by blast+
  from n(2) have "calculateRegionDistance r3 r2 \<le> g" by (simp add: distance_commute)
  with merge_closer_right[OF ok(1) ok(3) ok(2)]
  have "calculateRegionDistance (mergeRegions r1 r3) r2 \<le> g" by linarith
  from mergeLoop_three_second[OF False n(1) this] show ?thesis
    by (simp add: bounds_merge3 unionBounds_perm)
qed


lemma detectRegions_single:
  assumes "map boundsOf (mergeLoop g (firstPass img m)) = [bx]"
  shows "detectRegions img m g = [\<lparr>region_id = 1, bounds = bx, region_elements = []\<rparr>]"
proof -
  from assms obtain r where r: "mergeLoop g (firstPass img m) = [r]" and b: "boundsOf r = bx"
    by auto
  show ?thesis
    using b by (simp add: detectRegions_def r boundsOf_def)
qed

lemma mergeLoop_stops: "findPair g rs = None \<Longrightarrow> mergeLoop g rs = rs"
  by (subst mergeLoop.simps) simp

text \<open>
  Claim C2. Merging is transitive. When the first pass on a raster retains exactly three
  blobs, and these are A, B, C in some order with the distance from A to B and from B to
  C at most the grouping distance and the distance from A to C above it, then
  \<^verbatim>\<open>detectRegions\<close> returns exactly one region, with id 1, whose bounds are the union of
  the three bounding boxes. The merge loop always returns; what it returns has no pair
  of regions within the grouping distance, and a list without such a pair is returned
  as it is.
\<close>

theorem merge_transitive:
  assumes "firstPass img m = [r1, r2, r3]"
    and "(a, b, c) \<in> {(r1, r2, r3), (r1, r3, r2), (r2, r1, r3),
                       (r2, r3, r1), (r3, r1, r2), (r3, r2, r1)}"
    and "calculateRegionDistance a b \<le> g"
    and "calculateRegionDistance b c \<le> g"
    and "g < calculateRegionDistance a c"
  shows "detectRegions img m g
           = [\<lparr>region_id = 1, bounds = unionBounds a b c, region_elements = []\<rparr>]
         \<and> (\<forall>i j. i < j \<and> j < length (mergeLoop g rs) \<longrightarrow>
               g < calculateRegionDistance (mergeLoop g rs ! i) (mergeLoop g rs ! j))
         \<and> ((\<forall>i j. i < j \<and> j < length rs \<longrightarrow> g < calculateRegionDistance (rs ! i) (rs ! j))
               \<longrightarrow> mergeLoop g rs = rs)"
proof -
  have ok: "boxOK r1" "boxOK r2" "boxOK r3"
    using firstPass_boxOK[of _ img m] assms(1) by simp_all
  have ab: "calculateRegionDistance b a \<le> g" and cb: "calculateRegionDistance c b \<le> g"
    using assms(3,4) by (simp_all add: distance_commute)
  have near: "(calculateRegionDistance r1 r2 \<le> g \<and>
                 (calculateRegionDistance r1 r3 \<le> g \<or> calculateRegionDistance r2 r3 \<le> g))
               \<or> (calculateRegionDistance r1 r3 \<le> g \<and> calculateRegionDistance r2 r3 \<le> g)"
    using assms(2,3,4) ab cb by auto
  have ub: "unionBounds r1 r2 r3 = unionBounds a b c"
    using assms(2)
    by (auto simp: unionBounds_def min.commute min.left_commute max.commute max.left_commute)
  have "map boundsOf (mergeLoop g (firstPass img m)) = [unionBounds a b c]"
    using merge_three[OF ok near] by (simp add: assms(1) ub)
  then have one: "detectRegions img m g
           = [\<lparr>region_id = 1, bounds = unionBounds a b c, region_elements = []\<rparr>]"
    by (rule detectRegions_single)
  have nopair: "\<forall>i j. i < j \<and> j < length (mergeLoop g rs) \<longrightarrow>
               g < calculateRegionDistance (mergeLoop g rs ! i) (mergeLoop g rs ! j)"
    using mergeLoop_no_pair[of g rs] by (simp only: findPair_None_iff)
  have stop: "(\<forall>i j. i < j \<and> j < length rs \<longrightarrow> g < calculateRegionDistance (rs ! i) (rs ! j))
               \<longrightarrow> mergeLoop g rs = rs"
    using mergeLoop_stops[of g rs] by (simp only: findPair_None_iff) blast
  from one nopair stop show ?thesis by blast
qed

lemma three_dots_firstPass: "firstPass three_dots 1 = [dot 0, dot 2, dot 4]"
  by code_simp

lemma dots_near: "calculateRegionDistance (dot 0) (dot 2) \<le> 2"
  "calculateRegionDistance (dot 2) (dot 4) \<le> 2"
  by (simp_all add: calculateRegionDistance_def dot_def)

lemma dots_far: "2 < calculateRegionDistance (dot 0) (dot 4)"
proof -
  have "(2::real) < sqrt 16" by (rule real_less_rsqrt) simp
  then show ?thesis by (simp add: calculateRegionDistance_def dot_def)
qed

theorem merge_transitive_witness:
  "firstPass three_dots 1 = [dot 0, dot 2, dot 4]
   \<and> calculateRegionDistance (dot 0) (dot 2) \<le> 2
   \<and> calculateRegionDistance (dot 2) (dot 4) \<le> 2
   \<and> 2 < calculateRegionDistance (dot 0) (dot 4)
   \<and> detectRegions three_dots 1 2
       = [\<lparr>region_id = 1, bounds = \<lparr>x1 = 0, y1 = 0, x2 = 4, y2 = 0\<rparr>, region_elements = []\<rparr>]"
proof -
  have mem: "(dot 0, dot 2, dot 4) \<in> {(dot 0, dot 2, dot 4), (dot 0, dot 4, dot 2),
               (dot 2, dot 0, dot 4), (dot 2, dot 4, dot 0), (dot 4, dot 0, dot 2),
               (dot 4, dot 2, dot 0)}"
    by simp
  from merge_transitive[OF three_dots_firstPass mem dots_near dots_far]
  have "detectRegions three_dots 1 2
       = [\<lparr>region_id = 1, bounds = unionBounds (dot 0) (dot 2) (dot 4), region_elements = []\<rparr>]"
    by simp
  then show ?thesis
    using three_dots_firstPass dots_near dots_far by (simp add: unionBounds_def dot_def)
qed

section \<open>Properties of the flood fill and the first pass\<close>

lemma neighbors_iff:
  "(a, b) \<in> set (neighbors x y) \<longleftrightarrow> \<bar>a - x\<bar> \<le> 1 \<and> \<bar>b - y\<bar> \<le> 1 \<and> (a \<noteq> x \<or> b \<noteq> y)"
proof
  assume "(a, b) \<in> set (neighbors x y)"
  then show "\<bar>a - x\<bar> \<le> 1 \<and> \<bar>b - y\<bar> \<le> 1 \<and> (a \<noteq> x \<or> b \<noteq> y)"
    unfolding neighbors_def by (elim set_ConsD[elim_format]) (simp_all, linarith+)
next
  assume r: "\<bar>a - x\<bar> \<le> 1 \<and> \<bar>b - y\<bar> \<le> 1 \<and> (a \<noteq> x \<or> b \<noteq> y)"
  then have "a = x - 1 \<or> a = x \<or> a = x + 1" "b = y - 1 \<or> b = y \<or> b = y + 1"
    by linarith+
  with r show "(a, b) \<in> set (neighbors x y)"
    unfolding neighbors_def by (elim disjE) simp_all
qed

text \<open>The code against the specification's words: the eight offsets of \<^verbatim>\<open>floodFill\<close>
  are the 8-adjacent pixels, and its test inside the raster is the alpha above 0.\<close>

lemma adjacent8_neighbors: "q \<in> set (neighbors (fst p) (snd p)) \<longleftrightarrow> adjacent8 p q"
  using neighbors_iff[of "fst q" "snd q" "fst p" "snd p"]
  by (simp add: adjacent8_def prod_eq_iff)

lemma inBounds_iff:
  "p \<in> inBounds img \<longleftrightarrow>
     0 \<le> fst p \<and> fst p < width img \<and> 0 \<le> snd p \<and> snd p < height img"
  by (cases p) (auto simp: inBounds_def)

lemma opaque_alpha:
  assumes "p \<in> inBounds img"
  shows "opaque img p \<longleftrightarrow> 0 < spec_alpha img p"
proof -
  define K where "K = (snd p * width img + fst p) * 4"
  from assms have b: "0 \<le> fst p" "fst p < width img" "0 \<le> snd p" "snd p < height img"
    by (simp_all add: inBounds_iff)
  then have "0 \<le> snd p * width img" by simp
  with b have "0 \<le> snd p * width img + fst p" by linarith
  then have k: "0 \<le> K + 3" by (simp add: K_def)
  have op: "opaque img p \<longleftrightarrow> (case data_at img (K + 3) of None \<Rightarrow> False | Some v \<Rightarrow> 0 < v)"
    by (simp add: opaque_def isPixelNonTransparent_def getPixel_def Let_def K_def)
  have e: "4 * (snd p * width img + fst p) + 3 = K + 3" by (simp add: K_def)
  have sa: "spec_alpha img p = (if nat (K + 3) < length (data img) then data img ! nat (K + 3) else 0)"
    unfolding spec_alpha_def Let_def e ..
  show ?thesis using k by (simp add: op sa data_at_def)
qed

lemma ink_code: "p \<in> ink img \<longleftrightarrow> p \<in> inBounds img \<and> opaque img p"
proof (cases "p \<in> inBounds img")
  case True
  then have "0 \<le> fst p \<and> fst p < width img \<and> 0 \<le> snd p \<and> snd p < height img"
    by (simp add: inBounds_iff)
  then have "p \<in> ink img \<longleftrightarrow> 0 < spec_alpha img p" by (simp add: ink_def)
  with opaque_alpha[OF True] True show ?thesis by simp
next
  case False
  then have "\<not> (0 \<le> fst p \<and> fst p < width img \<and> 0 \<le> snd p \<and> snd p < height img)"
    by (simp add: inBounds_iff)
  then have "p \<notin> ink img" by (auto simp: ink_def)
  with False show ?thesis by simp
qed

lemma touching_code:
  "(p, q) \<in> touching img \<longleftrightarrow>
     p \<in> ink img \<and> q \<in> ink img \<and> q \<in> set (neighbors (fst p) (snd p))"
  by (simp add: touching_def adjacent8_neighbors)

lemma neighbors_sym:
  "q \<in> set (neighbors (fst p) (snd p)) \<Longrightarrow> p \<in> set (neighbors (fst q) (snd q))"
  using neighbors_iff[of "fst q" "snd q" "fst p" "snd p"]
        neighbors_iff[of "fst p" "snd p" "fst q" "snd q"]
  by (simp add: abs_minus_commute) metis

lemma sym_touching: "sym (touching img)"
proof (rule symI)
  fix p q assume "(p, q) \<in> touching img"
  then show "(q, p) \<in> touching img"
    using neighbors_sym[of q p] by (simp add: touching_code)
qed

lemma blob_self: "s \<in> blob img s"
  by (simp add: blob_def)

lemma blob_step:
  "p \<in> blob img s \<Longrightarrow> p \<in> ink img \<Longrightarrow> n \<in> ink img \<Longrightarrow> n \<in> set (neighbors (fst p) (snd p))
   \<Longrightarrow> n \<in> blob img s"
proof -
  assume a: "p \<in> blob img s" "p \<in> ink img" "n \<in> ink img" "n \<in> set (neighbors (fst p) (snd p))"
  then have "(s, p) \<in> (touching img)\<^sup>*" "(p, n) \<in> touching img"
    by (simp_all add: blob_def touching_code)
  then have "(s, n) \<in> (touching img)\<^sup>*" by (rule rtrancl_into_rtrancl)
  then show ?thesis by (simp add: blob_def)
qed

lemma blob_ink: "s \<in> ink img \<Longrightarrow> blob img s \<subseteq> ink img"
proof
  fix p assume s: "s \<in> ink img" and "p \<in> blob img s"
  then have "(s, p) \<in> (touching img)\<^sup>*" by (simp add: blob_def)
  then show "p \<in> ink img"
    by (induction rule: rtrancl_induct) (auto simp: s touching_code)
qed

lemma blob_sym: "p \<in> blob img s \<Longrightarrow> s \<in> blob img p"
  unfolding blob_def using symD[OF sym_rtrancl[OF sym_touching[of img]]]
  by simp

lemma blob_trans: "p \<in> blob img s \<Longrightarrow> q \<in> blob img p \<Longrightarrow> q \<in> blob img s"
proof -
  assume "p \<in> blob img s" "q \<in> blob img p"
  then have "(s, p) \<in> (touching img)\<^sup>*" "(p, q) \<in> (touching img)\<^sup>*"
    by (simp_all add: blob_def)
  then have "(s, q) \<in> (touching img)\<^sup>*" by (rule rtrancl_trans)
  then show ?thesis by (simp add: blob_def)
qed

lemma blob_eq: "p \<in> blob img s \<Longrightarrow> blob img p = blob img s"
proof
  assume p: "p \<in> blob img s"
  show "blob img p \<subseteq> blob img s" using blob_trans[OF p] by blast
  show "blob img s \<subseteq> blob img p" using blob_trans[OF blob_sym[OF p]] by blast
qed

text \<open>A set that holds the start and is closed under touching holds the blob.\<close>

lemma blob_least:
  assumes "s \<in> A" and "\<And>p n. p \<in> A \<Longrightarrow> (p, n) \<in> touching img \<Longrightarrow> n \<in> A"
  shows "blob img s \<subseteq> A"
proof
  fix p assume "p \<in> blob img s"
  then have "(s, p) \<in> (touching img)\<^sup>*" by (simp add: blob_def)
  then show "p \<in> A"
  proof (induction rule: rtrancl_induct)
    case base
    show ?case by (rule assms(1))
  next
    case (step y z)
    from assms(2)[OF step.IH step.hyps(2)] show ?case .
  qed
qed

lemma pushNeighbors_set:
  "set (pushNeighbors img V x y) = {n \<in> set (neighbors x y). n \<in> inBounds img \<and> n \<notin> V}"
  by (auto simp: pushNeighbors_def inBounds_def isWithinBounds_def)


lemma points_addPoint: "points (addPoint r x y) = points r @ [(of_int x, of_int y)]"
  by (simp add: addPoint_def)

lemma floodLoop_blob:
  assumes "V0 \<inter> blob img s = {}" "s \<in> ink img" "floodInv img V0 s queue V r ps"
  shows "\<exists>ps'. points (fst (floodLoop img queue V r)) = map asPoint ps' \<and> distinct ps'
               \<and> set ps' = blob img s
               \<and> snd (floodLoop img queue V r) = V0 \<union> blob img s"
  using assms
proof (induction img queue V r arbitrary: ps rule: floodLoop.induct)
  case (1 img V r)
  note disj = "1.prems"(1) and s = "1.prems"(2)
  from "1.prems"(3) have pts: "points r = map asPoint ps" and V: "V = V0 \<union> set ps"
    and dist: "distinct ps" and sub: "set ps \<subseteq> blob img s"
    and front: "\<forall>p \<in> set ps. \<forall>n \<in> set (neighbors (fst p) (snd p)). n \<in> ink img \<longrightarrow> n \<in> V"
    and start: "s \<in> set ps"
    unfolding floodInv_def by simp_all blast
  have "blob img s \<subseteq> set ps"
  proof (rule blob_least)
    show "s \<in> set ps" by (rule start)
  next
    fix p n assume p: "p \<in> set ps" and t: "(p, n) \<in> touching img"
    from t have n: "n \<in> ink img" "n \<in> set (neighbors (fst p) (snd p))" "p \<in> ink img"
      by (simp_all add: touching_code)
    from front p n have "n \<in> V" by blast
    moreover from sub p have "p \<in> blob img s" by blast
    from blob_step[OF this n(3) n(1) n(2)] have "n \<in> blob img s" .
    ultimately show "n \<in> set ps" using V disj by blast
  qed
  with sub have "set ps = blob img s" by blast
  with pts dist V show ?case by auto
next
  case (2 img p queue V r)
  note disj = "2.prems"(1) and s = "2.prems"(2)
  from "2.prems"(3) have pts: "points r = map asPoint ps" and V: "V = V0 \<union> set ps"
    and dist: "distinct ps" and sub: "set ps \<subseteq> blob img s"
    and qin: "set (p # queue) \<subseteq> inBounds img"
    and qblob: "\<forall>q \<in> set (p # queue). opaque img q \<longrightarrow> q \<in> blob img s"
    and front: "\<forall>a \<in> set ps. \<forall>n \<in> set (neighbors (fst a) (snd a)).
                  n \<in> ink img \<longrightarrow> n \<in> V \<or> n \<in> set (p # queue)"
    and start: "s \<in> set ps \<or> s \<in> set (p # queue)"
    unfolding floodInv_def by blast+
  have sV0: "s \<notin> V0" using disj blob_self[of s img] by blast
  show ?case
  proof (cases "p \<in> V")
    case True
    have "floodInv img V0 s queue V r ps"
      unfolding floodInv_def
    proof (intro conjI)
      show "\<forall>a\<in>set ps. \<forall>n\<in>set (neighbors (fst a) (snd a)). n \<in> ink img \<longrightarrow> n \<in> V \<or> n \<in> set queue"
        using front True by auto
      show "s \<in> set ps \<or> s \<in> set queue"
        using start True V sV0 by auto
    qed (use pts V dist sub qin qblob in auto)
    from "2.IH"(1)[OF True disj s this] True show ?thesis by simp
  next
    case False
    show ?thesis
    proof (cases "isPixelNonTransparent (getPixel img (fst p) (snd p))")
      case op: False
      then have nop: "\<not> opaque img p" by (simp add: opaque_def)
      have "floodInv img V0 s queue V r ps"
        unfolding floodInv_def
      proof (intro conjI)
        show "\<forall>a\<in>set ps. \<forall>n\<in>set (neighbors (fst a) (snd a)). n \<in> ink img \<longrightarrow> n \<in> V \<or> n \<in> set queue"
          using front nop by (auto simp: ink_code)
        show "s \<in> set ps \<or> s \<in> set queue"
          using start nop s by (auto simp: ink_code)
      qed (use pts V dist sub qin qblob in auto)
      from "2.IH"(2)[OF False _ disj s this] op False show ?thesis by simp
    next
      case op: True
      then have opq: "opaque img p" by (simp add: opaque_def)
      have pin: "p \<in> inBounds img" using qin by simp
      have pink: "p \<in> ink img" using pin opq by (simp add: ink_code)
      have pblob: "p \<in> blob img s" using qblob opq by simp
      let ?V = "insert p V"
      let ?q = "queue @ pushNeighbors img ?V (fst p) (snd p)"
      let ?r = "addPoint r (fst p) (snd p)"
      have "floodInv img V0 s ?q ?V ?r (ps @ [p])"
        unfolding floodInv_def
      proof (intro conjI)
        show "points ?r = map asPoint (ps @ [p])"
          by (simp add: points_addPoint pts asPoint_def)
        show "?V = V0 \<union> set (ps @ [p])" using V by auto
        show "distinct (ps @ [p])" using dist False V by auto
        show "set (ps @ [p]) \<subseteq> blob img s" using sub pblob by auto
        show "set ?q \<subseteq> inBounds img" using qin by (auto simp: pushNeighbors_set)
        show "\<forall>q\<in>set ?q. opaque img q \<longrightarrow> q \<in> blob img s"
        proof (intro ballI impI)
          fix q assume q: "q \<in> set ?q" and oq: "opaque img q"
          show "q \<in> blob img s"
          proof (cases "q \<in> set queue")
            case True
            then show ?thesis using qblob oq by simp
          next
            case False
            with q have "q \<in> set (neighbors (fst p) (snd p))" "q \<in> inBounds img"
              by (auto simp: pushNeighbors_set)
            with oq have "q \<in> ink img" "q \<in> set (neighbors (fst p) (snd p))"
              by (simp_all add: ink_code)
            from blob_step[OF pblob pink this] show ?thesis .
          qed
        qed
        show "\<forall>a\<in>set (ps @ [p]). \<forall>n\<in>set (neighbors (fst a) (snd a)).
                n \<in> ink img \<longrightarrow> n \<in> ?V \<or> n \<in> set ?q"
        proof (intro ballI impI)
          fix a n assume a: "a \<in> set (ps @ [p])" and n: "n \<in> set (neighbors (fst a) (snd a))"
            and ni: "n \<in> ink img"
          show "n \<in> ?V \<or> n \<in> set ?q"
          proof (cases "a = p")
            case True
            with n ni show ?thesis by (auto simp: pushNeighbors_set ink_code)
          next
            case False
            with a have "a \<in> set ps" by simp
            with front n ni have "n \<in> V \<or> n \<in> set (p # queue)" by blast
            then show ?thesis by auto
          qed
        qed
        show "s \<in> set (ps @ [p]) \<or> s \<in> set ?q" using start by auto
      qed
      from "2.IH"(3)[OF False _ disj s this] op False show ?thesis by simp
    qed
  qed
qed

lemma closed_blob: "closedUnder img (blob img s)"
  unfolding closedUnder_def blob_def by (auto intro: rtrancl_into_rtrancl)

lemma closed_Un: "closedUnder img A \<Longrightarrow> closedUnder img B \<Longrightarrow> closedUnder img (A \<union> B)"
  unfolding closedUnder_def by blast

lemma closed_disjoint:
  assumes "closedUnder img V" "s \<notin> V"
  shows "V \<inter> blob img s = {}"
proof (rule ccontr)
  assume "V \<inter> blob img s \<noteq> {}"
  then obtain c where c: "c \<in> V" "c \<in> blob img s" by blast
  have "blob img c \<subseteq> V"
  proof (rule blob_least)
    show "c \<in> V" by (rule c(1))
  next
    fix p n assume "p \<in> V" "(p, n) \<in> touching img"
    with assms(1) show "n \<in> V" unfolding closedUnder_def by blast
  qed
  with blob_sym[OF c(2)] assms(2) show False by blast
qed

lemma floodFill_blob:
  assumes "s \<in> ink img" "s \<notin> V" "closedUnder img V"
  shows "isBlob img (fst (floodFill img (fst s) (snd s) V)) s
         \<and> snd (floodFill img (fst s) (snd s) V) = V \<union> blob img s"
proof -
  let ?r = "\<lparr>points = [], minX = of_int (fst s), maxX = of_int (fst s),
             minY = of_int (snd s), maxY = of_int (snd s)\<rparr>"
  have inb: "s \<in> inBounds img" and op: "opaque img s"
    using assms(1) by (simp_all add: ink_code)
  have inv: "floodInv img V s [s] V ?r []"
    using inb by (simp add: floodInv_def blob_self)
  from floodLoop_blob[OF closed_disjoint[OF assms(3) assms(2)] assms(1) inv]
  show ?thesis unfolding floodFill_def isBlob_def prod.collapse by blast
qed

lemma isBlob_eq: "isBlob img r s \<Longrightarrow> q \<in> blob img s \<Longrightarrow> isBlob img r q"
  by (simp add: isBlob_def blob_eq)

lemma scanStep_all:
  "scanStep img 0 st p =
     (if p \<in> fst st then st
      else if \<not> opaque img p then st
      else (snd (floodFill img (fst p) (snd p) (fst st)),
            snd st @ [fst (floodFill img (fst p) (snd p) (fst st))]))"
  by (simp add: scanStep_def Let_def opaque_def)

lemma scanStep_inv:
  assumes "scanInv img st" "p \<in> inBounds img"
  shows "scanInv img (scanStep img 0 st p) \<and> fst st \<subseteq> fst (scanStep img 0 st p)
         \<and> (p \<in> ink img \<longrightarrow> p \<in> fst (scanStep img 0 st p))"
proof (cases "p \<in> fst st \<or> \<not> opaque img p")
  case True
  then show ?thesis using assms(1) by (auto simp: scanStep_all ink_code)
next
  case False
  then have nv: "p \<notin> fst st" and pink: "p \<in> ink img"
    using assms(2) by (simp_all add: ink_code)
  from assms(1) have cl: "closedUnder img (fst st)"
    and cov: "\<forall>q \<in> fst st \<inter> ink img. \<exists>r \<in> set (snd st). isBlob img r q"
    and bl: "\<forall>r \<in> set (snd st). \<exists>s \<in> ink img. isBlob img r s"
    by (simp_all add: scanInv_def)
  let ?f = "floodFill img (fst p) (snd p) (fst st)"
  from floodFill_blob[OF pink nv cl]
  have fb: "isBlob img (fst ?f) p" and fv: "snd ?f = fst st \<union> blob img p" by simp_all
  have step: "scanStep img 0 st p = (snd ?f, snd st @ [fst ?f])"
    using False by (simp add: scanStep_all)
  have "scanInv img (snd ?f, snd st @ [fst ?f])"
    unfolding scanInv_def
  proof (intro conjI)
    show "closedUnder img (fst (snd ?f, snd st @ [fst ?f]))"
      using cl closed_blob[of img p] by (simp add: fv closed_Un)
    show "\<forall>q\<in>fst (snd ?f, snd st @ [fst ?f]) \<inter> ink img.
            \<exists>r\<in>set (snd (snd ?f, snd st @ [fst ?f])). isBlob img r q"
    proof
      fix q assume "q \<in> fst (snd ?f, snd st @ [fst ?f]) \<inter> ink img"
      then have q: "q \<in> fst st \<union> blob img p" "q \<in> ink img" by (simp_all add: fv)
      show "\<exists>r\<in>set (snd (snd ?f, snd st @ [fst ?f])). isBlob img r q"
      proof (cases "q \<in> fst st")
        case True
        with cov q(2) show ?thesis by auto
      next
        case False
        with q(1) have "q \<in> blob img p" by blast
        from isBlob_eq[OF fb this] show ?thesis by simp
      qed
    qed
    show "\<forall>r\<in>set (snd (snd ?f, snd st @ [fst ?f])). \<exists>s\<in>ink img. isBlob img r s"
      using bl fb pink by auto
  qed
  then show ?thesis
    using pink by (simp add: step fv blob_self)
qed

lemma scan_inv:
  assumes "scanInv img st" "set ps \<subseteq> inBounds img"
  shows "scanInv img (foldl (scanStep img 0) st ps)
         \<and> fst st \<subseteq> fst (foldl (scanStep img 0) st ps)
         \<and> set ps \<inter> ink img \<subseteq> fst (foldl (scanStep img 0) st ps)"
  using assms
proof (induction ps arbitrary: st)
  case Nil
  then show ?case by simp
next
  case (Cons p ps)
  from Cons.prems have p: "p \<in> inBounds img" and ps: "set ps \<subseteq> inBounds img" by simp_all
  from scanStep_inv[OF Cons.prems(1) p]
  have a: "scanInv img (scanStep img 0 st p)" and b: "fst st \<subseteq> fst (scanStep img 0 st p)"
    and c: "p \<in> ink img \<longrightarrow> p \<in> fst (scanStep img 0 st p)" by simp_all
  from Cons.IH[OF a ps] b c show ?case by auto
qed

lemma set_scanOrder: "set (scanOrder img) = inBounds img"
  by (auto simp: scanOrder_def inBounds_def)

lemma scan_filter:
  "foldl (scanStep img m) (V, filter (\<lambda>r. m \<le> real (length (points r))) rs) ps
   = (fst (foldl (scanStep img 0) (V, rs) ps),
      filter (\<lambda>r. m \<le> real (length (points r))) (snd (foldl (scanStep img 0) (V, rs) ps)))"
proof (induction ps arbitrary: V rs)
  case Nil
  show ?case by simp
next
  case (Cons p ps)
  let ?P = "\<lambda>r. m \<le> real (length (points r))"
  obtain V' rs' where st: "scanStep img 0 (V, rs) p = (V', rs')" by (cases "scanStep img 0 (V, rs) p")
  have "scanStep img m (V, filter ?P rs) p = (V', filter ?P rs')"
    using st by (auto simp: scanStep_def Let_def split: if_splits)
  then show ?case using Cons.IH[of V' rs'] st by simp
qed

lemma firstPass_filter:
  "firstPass img m = filter (\<lambda>r. m \<le> real (length (points r))) (firstPass img 0)"
  using scan_filter[of img m "{}" "[]" "scanOrder img"] by (simp add: firstPass_def)


lemma scan_all:
  "(\<forall>s \<in> ink img. \<exists>r \<in> set (firstPass img 0). isBlob img r s)
   \<and> (\<forall>r \<in> set (firstPass img 0). \<exists>s \<in> ink img. isBlob img r s)"
proof -
  have init: "scanInv img ({}, [])" by (simp add: scanInv_def closedUnder_def)
  have sub: "set (scanOrder img) \<subseteq> inBounds img" by (simp add: set_scanOrder)
  let ?st = "foldl (scanStep img 0) ({}, []) (scanOrder img)"
  from scan_inv[OF init sub]
  have inv: "scanInv img ?st" and cov: "set (scanOrder img) \<inter> ink img \<subseteq> fst ?st"
    by simp_all
  have "ink img \<subseteq> fst ?st" using cov by (auto simp: set_scanOrder ink_code)
  with inv show ?thesis unfolding scanInv_def firstPass_def by blast
qed

lemma inj_asPoint: "inj asPoint"
  by (auto simp: inj_on_def asPoint_def prod_eq_iff)

lemma isBlob_points:
  assumes "isBlob img r s"
  shows "set (points r) = asPoint ` blob img s" "length (points r) = card (blob img s)"
    "distinct (points r)"
proof -
  from assms obtain ps where ps: "points r = map asPoint ps" "distinct ps" "set ps = blob img s"
    unfolding isBlob_def by blast
  show "set (points r) = asPoint ` blob img s" using ps by simp
  show "length (points r) = card (blob img s)" using ps distinct_card[of ps] by simp
  show "distinct (points r)"
    using ps by (simp add: distinct_map inj_on_subset[OF inj_asPoint subset_UNIV])
qed

lemma findPair_Nil: "findPair g [] = None"
  by (simp add: findPair_def pairs_def)

lemma mergeLoop_Nil: "mergeLoop g [] = []"
  by (subst mergeLoop.simps) (simp add: findPair_Nil)

lemma mergeLoop_nonempty: "rs \<noteq> [] \<Longrightarrow> mergeLoop g rs \<noteq> []"
proof (induction g rs rule: mergeLoop.induct)
  case (1 g rs)
  show ?case
  proof (cases "findPair g rs")
    case None
    then show ?thesis using "1.prems" by (subst mergeLoop.simps) simp
  next
    case (Some ij)
    from findPair_bounds[OF Some] have "mergeAt rs (fst ij) (snd ij) \<noteq> []"
      by (auto simp: mergeAt_def)
    from "1.IH"[OF Some this] Some show ?thesis by (subst mergeLoop.simps) simp
  qed
qed

lemma detectRegions_Nil_iff: "detectRegions img m g = [] \<longleftrightarrow> firstPass img m = []"
proof -
  have "length (detectRegions img m g) = length (mergeLoop g (firstPass img m))"
    by (simp add: detectRegions_def)
  then have "detectRegions img m g = [] \<longleftrightarrow> mergeLoop g (firstPass img m) = []"
    by (metis length_0_conv)
  then show ?thesis
    using mergeLoop_nonempty[of "firstPass img m" g] by (auto simp: mergeLoop_Nil)
qed

text \<open>
  Claim C4. The flood fill spreads from a pixel to exactly its eight 8-adjacent pixels.
  For every raster: the blob of an ink pixel (the 8-connected set of opaque pixels around
  it) is among the regions the first pass of \<^verbatim>\<open>detectRegions\<close> retains exactly when its
  number of pixels is at least \<^verbatim>\<open>minRegionSize\<close>; every retained region is such a blob,
  each pixel listed once; \<^verbatim>\<open>detectRegions\<close> returns the empty list exactly when every
  blob is smaller than \<^verbatim>\<open>minRegionSize\<close>, and so for a raster without an opaque pixel.
  The flood fill and both passes are total functions: no input makes them fail or run
  forever.
\<close>

theorem blob_retained_iff:
  "(q \<in> set (neighbors (fst p) (snd p)) \<longleftrightarrow> adjacent8 p q)
   \<and> (s \<in> ink img \<longrightarrow>
      ((\<exists>r \<in> set (firstPass img m). set (points r) = asPoint ` blob img s)
         \<longleftrightarrow> m \<le> real (card (blob img s))))
   \<and> (\<forall>r \<in> set (firstPass img m).
         \<exists>s \<in> ink img. isBlob img r s \<and> m \<le> real (card (blob img s)))
   \<and> (detectRegions img m g = [] \<longleftrightarrow> (\<forall>s \<in> ink img. real (card (blob img s)) < m))
   \<and> (ink img = {} \<longrightarrow> detectRegions img m g = [])"
proof -
  let ?P = "\<lambda>r. m \<le> real (length (points r))"
  have fp: "firstPass img m = filter ?P (firstPass img 0)" by (rule firstPass_filter)
  from scan_all[of img]
  have cov: "\<And>s. s \<in> ink img \<Longrightarrow> \<exists>r \<in> set (firstPass img 0). isBlob img r s"
    and snd: "\<And>r. r \<in> set (firstPass img 0) \<Longrightarrow> \<exists>s \<in> ink img. isBlob img r s"
    by blast+
  have sound: "\<forall>r \<in> set (firstPass img m).
         \<exists>s \<in> ink img. isBlob img r s \<and> m \<le> real (card (blob img s))"
  proof
    fix r assume "r \<in> set (firstPass img m)"
    then have r0: "r \<in> set (firstPass img 0)" and len: "m \<le> real (length (points r))"
      by (simp_all add: fp)
    from snd[OF r0] obtain s where s: "s \<in> ink img" "isBlob img r s" by blast
    from isBlob_points(2)[OF s(2)] len s
    show "\<exists>s \<in> ink img. isBlob img r s \<and> m \<le> real (card (blob img s))" by auto
  qed
  have iff: "s \<in> ink img \<longrightarrow>
      ((\<exists>r \<in> set (firstPass img m). set (points r) = asPoint ` blob img s)
         \<longleftrightarrow> m \<le> real (card (blob img s)))"
  proof (intro impI iffI)
    assume "s \<in> ink img" and "\<exists>r \<in> set (firstPass img m). set (points r) = asPoint ` blob img s"
    then obtain r where r: "r \<in> set (firstPass img m)" "set (points r) = asPoint ` blob img s"
      by blast
    from sound r(1) obtain t where t: "isBlob img r t" "m \<le> real (card (blob img t))" by blast
    from isBlob_points(1)[OF t(1)] r(2) have "asPoint ` blob img t = asPoint ` blob img s" by simp
    then have "blob img t = blob img s" by (simp add: inj_image_eq_iff[OF inj_asPoint])
    with t(2) show "m \<le> real (card (blob img s))" by simp
  next
    assume s: "s \<in> ink img" and m: "m \<le> real (card (blob img s))"
    from cov[OF s] obtain r where r: "r \<in> set (firstPass img 0)" "isBlob img r s" by blast
    from isBlob_points[OF r(2)] m r(1) have "r \<in> set (firstPass img m)"
      "set (points r) = asPoint ` blob img s" by (simp_all add: fp)
    then show "\<exists>r \<in> set (firstPass img m). set (points r) = asPoint ` blob img s" by blast
  qed
  have empty: "detectRegions img m g = [] \<longleftrightarrow> (\<forall>s \<in> ink img. real (card (blob img s)) < m)"
  proof
    assume "detectRegions img m g = []"
    then have e: "firstPass img m = []" by (simp add: detectRegions_Nil_iff)
    show "\<forall>s \<in> ink img. real (card (blob img s)) < m"
    proof
      fix s assume s: "s \<in> ink img"
      from cov[OF s] obtain r where r: "r \<in> set (firstPass img 0)" "isBlob img r s" by blast
      from e r(1) have "\<not> m \<le> real (length (points r))"
        unfolding fp by (auto simp: filter_empty_conv)
      with isBlob_points(2)[OF r(2)] show "real (card (blob img s)) < m" by simp
    qed
  next
    assume a: "\<forall>s \<in> ink img. real (card (blob img s)) < m"
    have "firstPass img m = []"
    proof (rule ccontr)
      assume "firstPass img m \<noteq> []"
      then obtain r where "r \<in> set (firstPass img m)" by (cases "firstPass img m") auto
      with sound a show False by fastforce
    qed
    then show "detectRegions img m g = []" by (simp add: detectRegions_Nil_iff)
  qed
  from empty have none: "ink img = {} \<longrightarrow> detectRegions img m g = []" by simp
  note eight = adjacent8_neighbors[of q p]
  from eight iff sound empty none show ?thesis by blast
qed

lemma blob_touch: "(s, n) \<in> touching img \<Longrightarrow> n \<in> blob img s"
  by (simp add: blob_def)

lemma int_below_4: "0 \<le> (x::int) \<Longrightarrow> x < 4 \<Longrightarrow> x = 0 \<or> x = 1 \<or> x = 2 \<or> x = 3"
  by linarith

lemma int_below_2: "0 \<le> (y::int) \<Longrightarrow> y < 2 \<Longrightarrow> y = 0 \<or> y = 1"
  by linarith

lemma diag_ink: "ink diag = {(0, 0), (3, 0), (1, 1)}"
proof
  show "ink diag \<subseteq> {(0, 0), (3, 0), (1, 1)}"
  proof
    fix p assume "p \<in> ink diag"
    then have b: "0 \<le> fst p" "fst p < 4" "0 \<le> snd p" "snd p < 2"
      and a: "0 < spec_alpha diag p"
      by (simp_all add: ink_def diag_def)
    obtain x y where p: "p = (x, y)" by (cases p)
    from int_below_4[OF b(1,2)] int_below_2[OF b(3,4)] a
    show "p \<in> {(0, 0), (3, 0), (1, 1)}"
      unfolding p by (elim disjE) (simp_all add: spec_alpha_def diag_def)
  qed
  show "{(0, 0), (3, 0), (1, 1)} \<subseteq> ink diag"
    by (simp add: ink_def spec_alpha_def diag_def)
qed

lemma diag_corner_blob: "blob diag (0, 0) = {(0, 0), (1, 1)}"
proof
  show "blob diag (0, 0) \<subseteq> {(0, 0), (1, 1)}"
  proof (rule blob_least)
    show "(0, 0) \<in> {(0::int, 0::int), (1, 1)}" by simp
  next
    fix p n assume "p \<in> {(0::int, 0::int), (1, 1)}" "(p, n) \<in> touching diag"
    then show "n \<in> {(0, 0), (1, 1)}"
      by (auto simp: touching_def diag_ink adjacent8_def)
  qed
  have "((0, 0), (1, 1)) \<in> touching diag"
    by (simp add: touching_def diag_ink adjacent8_def)
  from blob_touch[OF this] blob_self[of "(0, 0)" diag]
  show "{(0, 0), (1, 1)} \<subseteq> blob diag (0, 0)" by simp
qed

lemma diag_far_blob: "blob diag (3, 0) = {(3, 0)}"
proof
  show "blob diag (3, 0) \<subseteq> {(3, 0)}"
  proof (rule blob_least)
    show "(3, 0) \<in> {(3::int, 0::int)}" by simp
  next
    fix p n assume "p \<in> {(3::int, 0::int)}" "(p, n) \<in> touching diag"
    then show "n \<in> {(3, 0)}"
      by (auto simp: touching_def diag_ink adjacent8_def)
  qed
  show "{(3, 0)} \<subseteq> blob diag (3, 0)" using blob_self[of "(3, 0)" diag] by simp
qed

lemma diag_firstPass: "firstPass diag 2 = [corner_pair]"
  by code_simp

lemma blank_ink: "ink blank = {}"
proof -
  have "\<And>p. p \<in> ink blank \<Longrightarrow> False"
  proof -
    fix p assume "p \<in> ink blank"
    then have "fst p = 0" "snd p = 0" "0 < spec_alpha blank p"
      by (auto simp: ink_def blank_def)
    then show False by (simp add: spec_alpha_def blank_def)
  qed
  then show ?thesis by blast
qed

theorem blob_retained_iff_witness:
  "(1, 1) \<in> set (neighbors 0 0) \<and> adjacent8 (0, 0) (1, 1)
   \<and> (0, 0) \<in> ink diag
   \<and> blob diag (0, 0) = {(0, 0), (1, 1)}
   \<and> (\<exists>r \<in> set (firstPass diag 2). set (points r) = asPoint ` blob diag (0, 0))
   \<and> (3, 0) \<in> ink diag
   \<and> blob diag (3, 0) = {(3, 0)}
   \<and> \<not> (\<exists>r \<in> set (firstPass diag 2). set (points r) = asPoint ` blob diag (3, 0))
   \<and> firstPass diag 2 = [corner_pair]
   \<and> detectRegions diag 3 80 = []
   \<and> ink blank = {}
   \<and> detectRegions blank 100 80 = []"
proof -
  have a8: "adjacent8 (0, 0) (1, 1)" by (simp add: adjacent8_def)
  have i0: "(0, 0) \<in> ink diag" and i3: "(3, 0) \<in> ink diag" by (simp_all add: diag_ink)
  from blob_retained_iff[of "(1, 1)" "(0, 0)" "(0, 0)" diag 2 80] a8 i0
  have nb: "(1, 1) \<in> set (neighbors 0 0)"
    and kept: "\<exists>r \<in> set (firstPass diag 2). set (points r) = asPoint ` blob diag (0, 0)"
    by (simp_all add: diag_corner_blob)
  from blob_retained_iff[of "(1, 1)" "(0, 0)" "(3, 0)" diag 2 80] i3
  have dropped: "\<not> (\<exists>r \<in> set (firstPass diag 2). set (points r) = asPoint ` blob diag (3, 0))"
    by (simp add: diag_far_blob)
  have "\<forall>s \<in> ink diag. real (card (blob diag s)) < 3"
    by (simp add: diag_ink diag_corner_blob diag_far_blob
          blob_eq[of "(1, 1)" diag "(0, 0)", unfolded diag_corner_blob, simplified])
  with blob_retained_iff[of "(1, 1)" "(0, 0)" "(0, 0)" diag 3 80]
  have none: "detectRegions diag 3 80 = []" by blast
  from blob_retained_iff[of "(1, 1)" "(0, 0)" "(0, 0)" blank 100 80] blank_ink
  have empty: "detectRegions blank 100 80 = []" by blast
  from nb a8 i0 kept i3 dropped none empty diag_corner_blob diag_far_blob diag_firstPass blank_ink
  show ?thesis by blast
qed

end
